theory Spec2Isabelle
  imports Complex_Main "HOL-Library.Log_Nat"
begin

section \<open>Floating-point values\<close>

text \<open>
  The program computes in C++ \<open>float\<close> (IEEE 754 binary32) and, where a \<open>double\<close>
  literal takes part in an expression, in \<open>double\<close> (binary64). A value is a finite
  rational, an infinity or a NaN. Every operation computes the exact rational result
  and rounds it to the format (round to nearest, ties to even), each operation on its
  own: no fused multiply-add, no excess precision. The sign of a zero is not recorded:
  no comparison of the program depends on it, and the only zero divisors of the program
  come from converting an \<open>int\<close>.
\<close>

datatype fval = Fin rat | PInf | NInf | NaN

definition pow2 :: "int \<Rightarrow> rat" where
  "pow2 e = (if 0 \<le> e then 2 ^ nat e else 1 / 2 ^ nat (- e))"

text \<open>Binary exponentiation: the equation that evaluations run.\<close>

lemma pow2_code [code]:
  "pow2 e = (if e = 0 then 1
             else if e < 0 then 1 / pow2 (- e)
             else let h = pow2 (e div 2) in if even e then h * h else 2 * h * h)"
proof -
  have "(2::rat) ^ nat e = 2 ^ nat (e div 2) * 2 ^ nat (e div 2)" if "0 < e" "even e"
  proof -
    from that have "nat e = nat (e div 2) + nat (e div 2)" by (auto elim!: evenE)
    then show ?thesis by (metis power_add)
  qed
  moreover have "(2::rat) ^ nat e = 2 * 2 ^ nat (e div 2) * 2 ^ nat (e div 2)" if "0 < e" "odd e"
  proof -
    from that have "nat e = Suc (nat (e div 2) + nat (e div 2))" by (auto elim!: oddE)
    then show ?thesis by (metis power_Suc power_add mult.assoc)
  qed
  ultimately show ?thesis
    by (auto simp: pow2_def Let_def)
qed

text \<open>
  For \<open>q > 0\<close>: the exponent \<open>e\<close> with \<open>2 ^ e \<le> q < 2 ^ (e + 1)\<close>, from the
  bit lengths of numerator and denominator.
\<close>

definition ilog2 :: "rat \<Rightarrow> int" where
  "ilog2 q = (let (a, b) = quotient_of q;
                  e = bitlen a - bitlen b
              in if pow2 e \<le> q then e else e - 1)"

definition round_even :: "rat \<Rightarrow> int" where
  "round_even x = (let f = \<lfloor>x\<rfloor>; d = x - of_int f
                   in if d < 1 / 2 then f
                      else if 1 / 2 < d then f + 1
                      else if even f then f else f + 1)"

text \<open>
  Rounding a rational to the format with \<open>p\<close> significand bits and largest exponent
  \<open>emax\<close> (binary32: 24 and 127; binary64: 53 and 1023), subnormals included. A
  rounded magnitude of \<open>2 ^ (emax + 1)\<close> or more overflows to an infinity, which
  can only happen from the exponent \<open>emax\<close> on.
\<close>

definition fround :: "int \<Rightarrow> int \<Rightarrow> rat \<Rightarrow> fval" where
  "fround p emax q =
     (if q = 0 then Fin 0
      else let e = max (ilog2 \<bar>q\<bar>) (1 - emax);
               u = pow2 (e - p + 1);
               r = of_int (round_even (q / u)) * u
           in if e < emax then Fin r
              else if pow2 (emax + 1) \<le> \<bar>r\<bar> then (if 0 < q then PInf else NInf)
              else Fin r)"

definition fsign :: "fval \<Rightarrow> rat" where
  "fsign x = (case x of Fin a \<Rightarrow> sgn a | PInf \<Rightarrow> 1 | NInf \<Rightarrow> - 1 | NaN \<Rightarrow> 0)"

definition fneg :: "fval \<Rightarrow> fval" where
  "fneg x = (case x of Fin a \<Rightarrow> Fin (- a) | PInf \<Rightarrow> NInf | NInf \<Rightarrow> PInf | NaN \<Rightarrow> NaN)"

definition fabs :: "fval \<Rightarrow> fval" where
  "fabs x = (case x of Fin a \<Rightarrow> Fin \<bar>a\<bar> | PInf \<Rightarrow> PInf | NInf \<Rightarrow> PInf | NaN \<Rightarrow> NaN)"

definition fadd :: "int \<Rightarrow> int \<Rightarrow> fval \<Rightarrow> fval \<Rightarrow> fval" where
  "fadd p emax x y =
     (case (x, y) of
        (Fin a, Fin b) \<Rightarrow> fround p emax (a + b)
      | (NaN, _) \<Rightarrow> NaN
      | (_, NaN) \<Rightarrow> NaN
      | (PInf, NInf) \<Rightarrow> NaN
      | (NInf, PInf) \<Rightarrow> NaN
      | (PInf, _) \<Rightarrow> PInf
      | (NInf, _) \<Rightarrow> NInf
      | (Fin a, i) \<Rightarrow> i)"

definition fsub :: "int \<Rightarrow> int \<Rightarrow> fval \<Rightarrow> fval \<Rightarrow> fval" where
  "fsub p emax x y = fadd p emax x (fneg y)"

definition fmul :: "int \<Rightarrow> int \<Rightarrow> fval \<Rightarrow> fval \<Rightarrow> fval" where
  "fmul p emax x y =
     (case (x, y) of
        (Fin a, Fin b) \<Rightarrow> fround p emax (a * b)
      | _ \<Rightarrow> (let s = fsign x * fsign y
              in if s = 0 then NaN else if 0 < s then PInf else NInf))"

definition fdiv :: "int \<Rightarrow> int \<Rightarrow> fval \<Rightarrow> fval \<Rightarrow> fval" where
  "fdiv p emax x y =
     (case (x, y) of
        (Fin a, Fin b) \<Rightarrow>
          (if b = 0 then (if a = 0 then NaN else if 0 < a then PInf else NInf)
           else fround p emax (a / b))
      | (NaN, _) \<Rightarrow> NaN
      | (_, NaN) \<Rightarrow> NaN
      | (Fin a, _) \<Rightarrow> Fin 0
      | (_, Fin b) \<Rightarrow> (if 0 \<le> b then x else fneg x)
      | _ \<Rightarrow> NaN)"

text \<open>The comparisons \<open>></\<close> and \<open>==\<close>: false as soon as an operand is a NaN.\<close>

definition fgt :: "fval \<Rightarrow> fval \<Rightarrow> bool" where
  "fgt x y =
     (case (x, y) of
        (Fin a, Fin b) \<Rightarrow> b < a
      | (NaN, _) \<Rightarrow> False
      | (_, NaN) \<Rightarrow> False
      | (PInf, PInf) \<Rightarrow> False
      | (PInf, _) \<Rightarrow> True
      | (_, NInf) \<Rightarrow> x \<noteq> NInf
      | _ \<Rightarrow> False)"

definition feq :: "fval \<Rightarrow> fval \<Rightarrow> bool" where
  "feq x y = (x \<noteq> NaN \<and> x = y)"

text \<open>Conversions: \<open>int\<close> to a format, one format to another, and back to \<open>int\<close>.\<close>

definition of_int_f :: "int \<Rightarrow> int \<Rightarrow> int \<Rightarrow> fval" where
  "of_int_f p emax n = fround p emax (of_int n)"

definition fcast :: "int \<Rightarrow> int \<Rightarrow> fval \<Rightarrow> fval" where
  "fcast p emax x = (case x of Fin a \<Rightarrow> fround p emax a | _ \<Rightarrow> x)"

section \<open>The constants of the program\<close>

definition MIN_RE :: fval where "MIN_RE = Fin (- 5 / 2)"
definition MAX_RE :: fval where "MAX_RE = Fin 1"
definition MIN_IM :: fval where "MIN_IM = Fin (- 1)"
definition MAX_IM :: fval where "MAX_IM = Fin 1"

definition MAX_ITERATIONS :: int where "MAX_ITERATIONS = 100000"

definition THRESHOLD :: fval where "THRESHOLD = Fin 4"

text \<open>
  C++ truncates a floating value towards zero when it initialises an \<open>int\<close>. The
  conversion is used for the two window dimensions only, whose values are finite and small.
\<close>

definition f2i :: "fval \<Rightarrow> int" where
  "f2i x = (case x of Fin a \<Rightarrow> (if 0 \<le> a then \<lfloor>a\<rfloor> else \<lceil>a\<rceil>) | _ \<Rightarrow> - (2 ^ 31))"

abbreviation f32_add :: "fval \<Rightarrow> fval \<Rightarrow> fval" where "f32_add \<equiv> fadd 24 127"
abbreviation f32_sub :: "fval \<Rightarrow> fval \<Rightarrow> fval" where "f32_sub \<equiv> fsub 24 127"
abbreviation f32_mul :: "fval \<Rightarrow> fval \<Rightarrow> fval" where "f32_mul \<equiv> fmul 24 127"
abbreviation f32_div :: "fval \<Rightarrow> fval \<Rightarrow> fval" where "f32_div \<equiv> fdiv 24 127"
abbreviation f64_add :: "fval \<Rightarrow> fval \<Rightarrow> fval" where "f64_add \<equiv> fadd 53 1023"
abbreviation f64_mul :: "fval \<Rightarrow> fval \<Rightarrow> fval" where "f64_mul \<equiv> fmul 53 1023"
abbreviation i2f :: "int \<Rightarrow> fval" where "i2f \<equiv> of_int_f 24 127"
abbreviation d2f :: "fval \<Rightarrow> fval" where "d2f \<equiv> fcast 24 127"

text \<open>
  \<open>const int screenWidth = fabs(MAX_RE - MIN_RE) * 400\<close> and likewise
  \<open>screenHeight\<close>: the difference is a \<open>float\<close>, the product with the \<open>int\<close>
  400 is taken in \<open>double\<close> (the \<open>fabs\<close> of \<open>math.h\<close>), truncated to \<open>int\<close>.
\<close>

definition screenWidth :: int where
  "screenWidth = f2i (f64_mul (fabs (f32_sub MAX_RE MIN_RE)) (of_int_f 53 1023 400))"

definition screenHeight :: int where
  "screenHeight = f2i (f64_mul (fabs (f32_sub MAX_IM MIN_IM)) (of_int_f 53 1023 400))"

section \<open>The escape-time loop\<close>

text \<open>
  The \<open>while\<close> loop of \<open>ComputeMandelbrotRow\<close> (lines 39 to 49), with its local
  variables as arguments. The product \<open>2.0 * z_re * z_im + c_im\<close> has a \<open>double\<close>
  literal: it is computed in binary64 and rounded to binary32 by the assignment.
\<close>

function mandel_while :: "fval \<Rightarrow> fval \<Rightarrow> fval \<Rightarrow> fval \<Rightarrow> int \<Rightarrow> int" where
  "mandel_while c_re c_im z_re z_im iterations =
     (if iterations < MAX_ITERATIONS then
        (let z_re_temp = f32_add (f32_sub (f32_mul z_re z_re) (f32_mul z_im z_im)) c_re;
             z_im' = d2f (f64_add (f64_mul (f64_mul (Fin 2) z_re) z_im) c_im);
             z_re' = z_re_temp
         in if fgt (f32_add (f32_mul z_re' z_re') (f32_mul z_im' z_im')) THRESHOLD
            then iterations
            else mandel_while c_re c_im z_re' z_im' (iterations + 1))
      else iterations)"
  by pat_completeness auto
termination
  by (relation "measure (\<lambda>(c_re, c_im, z_re, z_im, iterations). nat (MAX_ITERATIONS - iterations))")
    auto

declare mandel_while.simps [simp del]

text \<open>
  Lines 36 to 49 for one point: \<open>z\<close> starts at \<open>c\<close>, the counter at 0; the value left
  in \<open>iterations\<close> when the loop is over.
\<close>

definition escape_iterations :: "fval \<Rightarrow> fval \<Rightarrow> int" where
  "escape_iterations c_re c_im = mandel_while c_re c_im c_re c_im 0"

lemma fround_zero: "fround p m 0 = Fin 0"
  by (simp add: fround_def)

lemma mandel_while_origin:
  "i \<le> MAX_ITERATIONS \<Longrightarrow> mandel_while (Fin 0) (Fin 0) (Fin 0) (Fin 0) i = MAX_ITERATIONS"
proof (induction "nat (MAX_ITERATIONS - i)" arbitrary: i)
  case 0
  then have "i = MAX_ITERATIONS" by simp
  then show ?case by (simp add: mandel_while.simps)
next
  case (Suc k)
  then have lt: "i < MAX_ITERATIONS" and k: "k = nat (MAX_ITERATIONS - (i + 1))" by linarith+
  have "mandel_while (Fin 0) (Fin 0) (Fin 0) (Fin 0) (i + 1) = MAX_ITERATIONS"
    using Suc.hyps(1) [OF k] lt by simp
  moreover have "mandel_while (Fin 0) (Fin 0) (Fin 0) (Fin 0) i
      = mandel_while (Fin 0) (Fin 0) (Fin 0) (Fin 0) (i + 1)"
    using lt
    by (subst mandel_while.simps)
      (simp add: Let_def fadd_def fsub_def fmul_def fneg_def fcast_def fgt_def fround_zero
        THRESHOLD_def)
  ultimately show ?case by simp
qed

section \<open>The reference escape-time definition\<close>

text \<open>
  The update \<open>z \<leftarrow> z\<^sup>2 + c\<close> on the pair of coordinates, in the arithmetic of
  the program, and the escape test on a point.
\<close>

definition z_squared_plus_c :: "fval \<times> fval \<Rightarrow> fval \<times> fval \<Rightarrow> fval \<times> fval" where
  "z_squared_plus_c c z =
     (f32_add (f32_sub (f32_mul (fst z) (fst z)) (f32_mul (snd z) (snd z))) (fst c),
      d2f (f64_add (f64_mul (f64_mul (Fin 2) (fst z)) (snd z)) (snd c)))"

definition escaped :: "fval \<Rightarrow> fval \<times> fval \<Rightarrow> bool" where
  "escaped threshold z = fgt (f32_add (f32_mul (fst z) (fst z)) (f32_mul (snd z) (snd z))) threshold"

text \<open>The orbit that starts at \<open>z = c\<close>: \<open>orbit c n\<close> is \<open>z\<close> after \<open>n\<close> updates.\<close>

fun orbit :: "fval \<times> fval \<Rightarrow> nat \<Rightarrow> fval \<times> fval" where
  "orbit c 0 = c"
| "orbit c (Suc n) = z_squared_plus_c c (orbit c n)"

text \<open>
  The reference definition, from the specification's words: the test is made on the
  newly computed \<open>z\<close> before the counter is incremented, so the counter value \<open>k\<close> is
  returned at the first \<open>k\<close> whose update, the \<open>(k + 1)\<close>-th, has escaped, and
  \<open>maxIterations\<close> when the counter gets there.
\<close>

definition evaluate_spec :: "fval \<Rightarrow> fval \<Rightarrow> nat \<Rightarrow> fval \<Rightarrow> nat" where
  "evaluate_spec c_re c_im maxIterations threshold =
     (case find (\<lambda>k. escaped threshold (orbit (c_re, c_im) (Suc k))) [0..<maxIterations] of
        Some k \<Rightarrow> k
      | None \<Rightarrow> maxIterations)"

lemma mandel_while_stop:
  "\<not> i < MAX_ITERATIONS \<Longrightarrow> mandel_while c_re c_im z_re z_im i = i"
  by (simp add: mandel_while.simps)

lemma mandel_while_step:
  "i < MAX_ITERATIONS \<Longrightarrow>
     mandel_while c_re c_im z_re z_im i =
       (if escaped THRESHOLD (z_squared_plus_c (c_re, c_im) (z_re, z_im)) then i
        else mandel_while c_re c_im (fst (z_squared_plus_c (c_re, c_im) (z_re, z_im)))
               (snd (z_squared_plus_c (c_re, c_im) (z_re, z_im))) (i + 1))"
  by (subst mandel_while.simps) (simp add: Let_def escaped_def z_squared_plus_c_def)

lemma mandel_while_range:
  "i \<le> MAX_ITERATIONS \<Longrightarrow>
     i \<le> mandel_while c_re c_im z_re z_im i \<and> mandel_while c_re c_im z_re z_im i \<le> MAX_ITERATIONS"
proof (induction "nat (MAX_ITERATIONS - i)" arbitrary: i z_re z_im)
  case 0
  then show ?case by (simp add: mandel_while_stop)
next
  case (Suc d)
  then have lt: "i < MAX_ITERATIONS" and d: "d = nat (MAX_ITERATIONS - (i + 1))" by linarith+
  have "i + 1 \<le> mandel_while c_re c_im a b (i + 1)
      \<and> mandel_while c_re c_im a b (i + 1) \<le> MAX_ITERATIONS" for a b
    using Suc.hyps(1) [OF d] lt by simp
  from this [of "fst (z_squared_plus_c (c_re, c_im) (z_re, z_im))"
      "snd (z_squared_plus_c (c_re, c_im) (z_re, z_im))"]
  show ?case
    using lt by (auto simp: mandel_while_step)
qed

lemma mandel_while_find:
  "n \<le> nat MAX_ITERATIONS \<Longrightarrow>
     mandel_while c_re c_im (fst (orbit (c_re, c_im) n)) (snd (orbit (c_re, c_im) n)) (int n)
       = (case find (\<lambda>k. escaped THRESHOLD (orbit (c_re, c_im) (Suc k))) [n..<nat MAX_ITERATIONS] of
            Some k \<Rightarrow> int k
          | None \<Rightarrow> MAX_ITERATIONS)"
proof (induction "nat MAX_ITERATIONS - n" arbitrary: n)
  case 0
  then have "int n = MAX_ITERATIONS" by (simp add: MAX_ITERATIONS_def)
  then show ?case using 0 by (simp add: mandel_while_stop)
next
  case (Suc d)
  then have lt: "n < nat MAX_ITERATIONS" and d: "d = nat MAX_ITERATIONS - Suc n" by linarith+
  have lt': "int n < MAX_ITERATIONS" using lt by linarith
  have upt: "[n..<nat MAX_ITERATIONS] = n # [Suc n..<nat MAX_ITERATIONS]"
    using lt by (simp add: upt_conv_Cons)
  have IH: "mandel_while c_re c_im (fst (orbit (c_re, c_im) (Suc n))) (snd (orbit (c_re, c_im) (Suc n)))
        (int n + 1)
      = (case find (\<lambda>k. escaped THRESHOLD (orbit (c_re, c_im) (Suc k))) [Suc n..<nat MAX_ITERATIONS] of
            Some k \<Rightarrow> int k
          | None \<Rightarrow> MAX_ITERATIONS)"
    using Suc.hyps(1) [OF d] lt by (simp add: add.commute)
  show ?case
    using IH by (simp add: mandel_while_step [OF lt'] upt)
qed

text \<open>
  C2. For every point \<open>(c_re, c_im)\<close> the value the loop of the program leaves in
  \<open>iterations\<close> is the value of the reference escape-time definition (orbit started at
  \<open>z = c\<close>, update \<open>z \<leftarrow> z\<^sup>2 + c\<close>, test on the new \<open>z\<close> before the increment, the
  counter returned at the first escape or at \<open>MAX_ITERATIONS\<close>), and it is an integer
  between 0 and \<open>MAX_ITERATIONS\<close>.
\<close>

theorem escape_iterations_refines_spec:
  "escape_iterations c_re c_im = int (evaluate_spec c_re c_im (nat MAX_ITERATIONS) THRESHOLD)
   \<and> 0 \<le> escape_iterations c_re c_im \<and> escape_iterations c_re c_im \<le> MAX_ITERATIONS"
proof -
  have "escape_iterations c_re c_im
      = (case find (\<lambda>k. escaped THRESHOLD (orbit (c_re, c_im) (Suc k))) [0..<nat MAX_ITERATIONS] of
            Some k \<Rightarrow> int k
          | None \<Rightarrow> MAX_ITERATIONS)"
    using mandel_while_find [of 0 c_re c_im] by (simp add: escape_iterations_def)
  also have "\<dots> = int (evaluate_spec c_re c_im (nat MAX_ITERATIONS) THRESHOLD)"
    by (simp add: evaluate_spec_def MAX_ITERATIONS_def split: option.split)
  finally have eq: "escape_iterations c_re c_im
      = int (evaluate_spec c_re c_im (nat MAX_ITERATIONS) THRESHOLD)" .
  have "0 \<le> mandel_while c_re c_im c_re c_im 0 \<and> mandel_while c_re c_im c_re c_im 0 \<le> MAX_ITERATIONS"
    using mandel_while_range [of 0 c_re c_im c_re c_im] by (simp add: MAX_ITERATIONS_def)
  with eq show ?thesis by (simp add: escape_iterations_def)
qed

text \<open>
  C7. At \<open>c = (0, 0)\<close>, with \<open>MAX_ITERATIONS = 100000\<close> and \<open>THRESHOLD = 4.0\<close>, the
  orbit stays at 0 and never escapes: the loop runs to the bound and the evaluation
  returns exactly 100000.
\<close>

theorem origin_never_escapes:
  "escape_iterations (Fin 0) (Fin 0) = 100000 \<and> MAX_ITERATIONS = 100000 \<and> THRESHOLD = Fin 4"
  using mandel_while_origin [of 0]
  by (simp add: escape_iterations_def MAX_ITERATIONS_def THRESHOLD_def)

text \<open>
  C8. At \<open>c = (2, 2)\<close> the orbit starts at \<open>c\<close>; its first update gives \<open>z = (2, 10)\<close>,
  whose squared magnitude 104 exceeds the threshold 4, so the loop stops in its first
  iteration, before the counter is incremented: the evaluation returns the counter of
  that first-iteration escape, which is 0.
\<close>

theorem far_point_escapes_at_once:
  "escape_iterations (Fin 2) (Fin 2) = 0
   \<and> orbit (Fin 2, Fin 2) (Suc 0) = (Fin 2, Fin 10)
   \<and> escaped THRESHOLD (orbit (Fin 2, Fin 2) (Suc 0))"
proof -
  have "escape_iterations (Fin 2) (Fin 2) = 0"
    unfolding escape_iterations_def by (subst mandel_while.simps) code_simp
  moreover have z: "z_squared_plus_c (Fin 2, Fin 2) (Fin 2, Fin 2) = (Fin 2, Fin 10)"
    by code_simp
  moreover have "escaped THRESHOLD (Fin 2, Fin 10)"
    by code_simp
  ultimately show ?thesis by (simp add: z)
qed

section \<open>The result buffer and one row\<close>

text \<open>
  The indices of the program are C++ \<open>int\<close>: 32 bits, two's complement. \<open>int32\<close>
  is the 32-bit value of an integer result, wrap-around written out. C++ leaves a signed
  overflow undefined; the model takes the value that the machine's multiplication and
  addition leave in the register.
\<close>

definition int32 :: "int \<Rightarrow> int" where
  "int32 n = (n + 2 ^ 31) mod 2 ^ 32 - 2 ^ 31"

text \<open>
  The buffer \<open>float *buffer\<close> is a store from cell index (offset from the pointer) to
  value. Its initial contents are whatever the allocation left there. The list
  \<open>stores\<close> records, in order, the index of every cell written: the program has no
  operation that reads a cell.
\<close>

record buffer =
  cells :: "int \<Rightarrow> fval"
  stores :: "int list"

definition store :: "buffer \<Rightarrow> int \<Rightarrow> fval \<Rightarrow> buffer" where
  "store b i v = b\<lparr>cells := (cells b)(i := v), stores := stores b @ [i]\<rparr>"

text \<open>Lines 31 and 32: the two values computed once for a row.\<close>

definition row_scaleX :: "int \<Rightarrow> fval" where
  "row_scaleX width = f32_div (f32_sub MAX_RE MIN_RE) (i2f width)"

definition row_c_im :: "int \<Rightarrow> fval" where
  "row_c_im y = f32_add MIN_IM (f32_div (f32_mul (i2f y) (f32_sub MAX_IM MIN_IM)) (i2f screenHeight))"

text \<open>
  The body of the \<open>for\<close> loop (lines 35 to 51) for column \<open>x\<close>: the point, its
  iteration count, and the store \<open>buffer[y * width + x] = iterations\<close>, which converts
  the count to \<open>float\<close>.
\<close>

definition row_pixel :: "buffer \<Rightarrow> int \<Rightarrow> int \<Rightarrow> fval \<Rightarrow> fval \<Rightarrow> int \<Rightarrow> buffer" where
  "row_pixel buffer width y scaleX c_im x =
     (let c_re = f32_add MIN_RE (f32_mul (i2f x) scaleX);
          iterations = escape_iterations c_re c_im
      in store buffer (int32 (int32 (y * width) + x)) (i2f iterations))"

function row_for :: "buffer \<Rightarrow> int \<Rightarrow> int \<Rightarrow> fval \<Rightarrow> fval \<Rightarrow> int \<Rightarrow> buffer" where
  "row_for buffer width y scaleX c_im x =
     (if x < width then row_for (row_pixel buffer width y scaleX c_im x) width y scaleX c_im (x + 1)
      else buffer)"
  by pat_completeness auto
termination
  by (relation "measure (\<lambda>(buffer, width, y, scaleX, c_im, x). nat (width - x))") auto

declare row_for.simps [simp del]

definition ComputeMandelbrotRow :: "buffer \<Rightarrow> int \<Rightarrow> int \<Rightarrow> buffer" where
  "ComputeMandelbrotRow buffer width y =
     (let scaleX = row_scaleX width;
          c_im = row_c_im y
      in row_for buffer width y scaleX c_im 0)"

text \<open>
  The value that lines 31 to 51 store for pixel \<open>(x, y)\<close> of a grid of the given width.
\<close>

definition pixel_value :: "int \<Rightarrow> int \<Rightarrow> int \<Rightarrow> fval" where
  "pixel_value width y x =
     i2f (escape_iterations (f32_add MIN_RE (f32_mul (i2f x) (row_scaleX width))) (row_c_im y))"

text \<open>
  A grid whose flat indices fit the \<open>int\<close> that the program computes them in: no
  \<open>y * width + x\<close> with \<open>0 \<le> y < height\<close> and \<open>0 \<le> x < width\<close> overflows.
\<close>

definition grid_fits_int :: "int \<Rightarrow> int \<Rightarrow> bool" where
  "grid_fits_int width height = (0 \<le> width \<and> 0 \<le> height \<and> width * height \<le> 2 ^ 31 - 1)"

lemma int32_id: "- (2 ^ 31) \<le> n \<Longrightarrow> n < 2 ^ 31 \<Longrightarrow> int32 n = n"
  by (simp add: int32_def)

lemma int32_range: "- (2 ^ 31) \<le> int32 n \<and> int32 n < 2 ^ 31"
  by (simp add: int32_def)

lemma row_fits:
  assumes "grid_fits_int width height" "0 \<le> y" "y < height"
  shows "0 \<le> y * width" "y * width + width \<le> 2 ^ 31 - 1"
proof -
  from assms have w: "0 \<le> width" and wh: "width * height \<le> 2 ^ 31 - 1"
    by (simp_all add: grid_fits_int_def)
  show "0 \<le> y * width" using assms(2) w by simp
  have "(y + 1) * width \<le> height * width"
    using assms(3) w by (intro mult_right_mono) auto
  then show "y * width + width \<le> 2 ^ 31 - 1"
    using wh by (simp add: algebra_simps)
qed

lemma index_no_wrap:
  assumes "0 \<le> y * width" "y * width + width \<le> 2 ^ 31 - 1" "0 \<le> x" "x < width"
  shows "int32 (int32 (y * width) + x) = y * width + x"
proof -
  have "int32 (y * width) = y * width"
    using assms by (intro int32_id) auto
  moreover have "int32 (y * width + x) = y * width + x"
    using assms by (intro int32_id) auto
  ultimately show ?thesis by simp
qed

lemma stores_row_pixel:
  "stores (row_pixel b width y scaleX c_im x) = stores b @ [int32 (int32 (y * width) + x)]"
  by (simp add: row_pixel_def store_def Let_def)

lemma cells_row_pixel:
  "cells (row_pixel b width y scaleX c_im x) =
     (cells b)(int32 (int32 (y * width) + x) :=
        i2f (escape_iterations (f32_add MIN_RE (f32_mul (i2f x) scaleX)) c_im))"
  by (simp add: row_pixel_def store_def Let_def)

lemma stores_row_for:
  "stores (row_for b width y scaleX c_im x)
     = stores b @ map (\<lambda>k. int32 (int32 (y * width) + k)) [x..width - 1]"
proof (induction b width y scaleX c_im x rule: row_for.induct)
  case (1 buffer width y scaleX c_im x)
  show ?case
  proof (cases "x < width")
    case True
    then have "[x..width - 1] = x # [x + 1..width - 1]"
      by (simp add: upto_rec1)
    with True "1.IH" show ?thesis
      by (subst row_for.simps) (simp add: stores_row_pixel)
  next
    case False
    then show ?thesis by (subst row_for.simps) simp
  qed
qed

lemma cells_row_for_other:
  "i \<notin> (\<lambda>k. int32 (int32 (y * width) + k)) ` {x..<width}
     \<Longrightarrow> cells (row_for b width y scaleX c_im x) i = cells b i"
proof (induction b width y scaleX c_im x rule: row_for.induct)
  case (1 buffer width y scaleX c_im x)
  show ?case
  proof (cases "x < width")
    case True
    have sub: "{x + 1..<width} \<subseteq> {x..<width}" by auto
    have x: "x \<in> {x..<width}" using True by simp
    have "i \<notin> (\<lambda>k. int32 (int32 (y * width) + k)) ` {x + 1..<width}"
      using "1.prems" sub by blast
    moreover have "i \<noteq> int32 (int32 (y * width) + x)"
      using "1.prems" x by blast
    ultimately show ?thesis
      using True "1.IH" by (subst row_for.simps) (simp add: cells_row_pixel)
  next
    case False
    then show ?thesis by (subst row_for.simps) simp
  qed
qed

lemma cells_row_for_written:
  assumes "0 \<le> y * width" "y * width + width \<le> 2 ^ 31 - 1" "0 \<le> x" "x \<le> k" "k < width"
  shows "cells (row_for b width y scaleX c_im x) (y * width + k)
     = i2f (escape_iterations (f32_add MIN_RE (f32_mul (i2f k) scaleX)) c_im)"
  using assms
proof (induction b width y scaleX c_im x rule: row_for.induct)
  case (1 buffer width y scaleX c_im x)
  from "1.prems" have lt: "x < width" by simp
  have ix: "int32 (int32 (y * width) + x) = y * width + x"
    using "1.prems" lt by (intro index_no_wrap) auto
  show ?case
  proof (cases "k = x")
    case True
    have "y * width + x \<notin> (\<lambda>j. int32 (int32 (y * width) + j)) ` {x + 1..<width}"
    proof
      assume "y * width + x \<in> (\<lambda>j. int32 (int32 (y * width) + j)) ` {x + 1..<width}"
      then obtain j where j: "x + 1 \<le> j" "j < width" "y * width + x = int32 (int32 (y * width) + j)"
        by auto
      have "int32 (int32 (y * width) + j) = y * width + j"
        using "1.prems" j by (intro index_no_wrap) auto
      with j show False by simp
    qed
    then have "cells (row_for (row_pixel buffer width y scaleX c_im x) width y scaleX c_im (x + 1))
        (y * width + x) = cells (row_pixel buffer width y scaleX c_im x) (y * width + x)"
      by (rule cells_row_for_other)
    then show ?thesis
      using lt True by (subst row_for.simps) (simp add: cells_row_pixel ix)
  next
    case False
    then have "cells (row_for (row_pixel buffer width y scaleX c_im x) width y scaleX c_im (x + 1))
        (y * width + k) = i2f (escape_iterations (f32_add MIN_RE (f32_mul (i2f k) scaleX)) c_im)"
      using "1.IH" [OF lt] "1.prems" by simp
    then show ?thesis
      using lt by (subst row_for.simps) simp
  qed
qed

lemma stores_ComputeMandelbrotRow:
  "stores (ComputeMandelbrotRow b width y)
     = stores b @ map (\<lambda>x. int32 (int32 (y * width) + x)) [0..width - 1]"
  by (simp add: ComputeMandelbrotRow_def stores_row_for)

lemma cells_ComputeMandelbrotRow_other:
  assumes "0 \<le> y * width" "y * width + width \<le> 2 ^ 31 - 1"
    and "\<not> (y * width \<le> i \<and> i < (y + 1) * width)"
  shows "cells (ComputeMandelbrotRow b width y) i = cells b i"
proof -
  have "i \<notin> (\<lambda>k. int32 (int32 (y * width) + k)) ` {0..<width}"
  proof
    assume "i \<in> (\<lambda>k. int32 (int32 (y * width) + k)) ` {0..<width}"
    then obtain k where k: "0 \<le> k" "k < width" "i = int32 (int32 (y * width) + k)"
      by auto
    have "int32 (int32 (y * width) + k) = y * width + k"
      using assms(1,2) k by (intro index_no_wrap) auto
    with k assms(3) show False by (simp add: algebra_simps)
  qed
  then show ?thesis
    by (simp add: ComputeMandelbrotRow_def cells_row_for_other)
qed

lemma cells_ComputeMandelbrotRow_written:
  assumes "0 \<le> y * width" "y * width + width \<le> 2 ^ 31 - 1" "0 \<le> x" "x < width"
  shows "cells (ComputeMandelbrotRow b width y) (y * width + x) = pixel_value width y x"
  using cells_row_for_written [OF assms(1,2) order_refl assms(3,4)]
  by (simp add: ComputeMandelbrotRow_def pixel_value_def)

text \<open>
  C5, for a grid whose indices fit an \<open>int\<close>. Computing a claimed row \<open>y\<close> of
  \<open>[0, height)\<close> stores to the cells \<open>y * width, \<dots>, y * width + width - 1\<close>, each
  exactly once and in this order, and to no other cell; every cell outside
  \<open>[y * width, (y + 1) * width)\<close> keeps its value; and no cell is read: what the row's
  cells hold afterwards depends on \<open>width\<close>, \<open>y\<close> and the column alone, whatever the
  buffer held before.
\<close>

theorem row_writes_only_its_cells:
  assumes "grid_fits_int width height" and "0 \<le> y" and "y < height"
  shows "stores (ComputeMandelbrotRow b width y)
           = stores b @ map (\<lambda>x. y * width + x) [0..width - 1]
         \<and> (\<forall>i. \<not> (y * width \<le> i \<and> i < (y + 1) * width)
                \<longrightarrow> cells (ComputeMandelbrotRow b width y) i = cells b i)
         \<and> (\<forall>x. 0 \<le> x \<and> x < width
                \<longrightarrow> cells (ComputeMandelbrotRow b width y) (y * width + x) = pixel_value width y x)
         \<and> (\<forall>b' x. 0 \<le> x \<and> x < width
                \<longrightarrow> cells (ComputeMandelbrotRow b' width y) (y * width + x)
                      = cells (ComputeMandelbrotRow b width y) (y * width + x))"
proof -
  note fits = row_fits [OF assms]
  have "map (\<lambda>x. int32 (int32 (y * width) + x)) [0..width - 1]
      = map (\<lambda>x. y * width + x) [0..width - 1]"
    by (rule map_cong [OF refl]) (simp add: index_no_wrap [OF fits])
  then have "stores (ComputeMandelbrotRow b width y)
      = stores b @ map (\<lambda>x. y * width + x) [0..width - 1]"
    by (simp add: stores_ComputeMandelbrotRow)
  moreover have "\<forall>i. \<not> (y * width \<le> i \<and> i < (y + 1) * width)
      \<longrightarrow> cells (ComputeMandelbrotRow b width y) i = cells b i"
    using cells_ComputeMandelbrotRow_other [OF fits] by blast
  moreover have "\<forall>c x. 0 \<le> x \<and> x < width
      \<longrightarrow> cells (ComputeMandelbrotRow c width y) (y * width + x) = pixel_value width y x"
    using cells_ComputeMandelbrotRow_written [OF fits] by blast
  ultimately show ?thesis by simp
qed

theorem row_writes_only_its_cells_witness:
  "stores (ComputeMandelbrotRow \<lparr>cells = (\<lambda>i. NaN), stores = []\<rparr> 2 0) = [0, 1]
   \<and> cells (ComputeMandelbrotRow \<lparr>cells = (\<lambda>i. NaN), stores = []\<rparr> 2 0) 2 = NaN
   \<and> cells (ComputeMandelbrotRow \<lparr>cells = (\<lambda>i. NaN), stores = []\<rparr> 2 0) 1 = Fin 1"
proof -
  have g: "grid_fits_int 2 1" by (simp add: grid_fits_int_def)
  have u: "[0..1] = [0, 1::int]" by (simp add: upto_rec1)
  have p: "pixel_value 2 0 1 = Fin 1" by code_simp
  note t = row_writes_only_its_cells [OF g order_refl zero_less_one,
      of "\<lparr>cells = (\<lambda>i. NaN), stores = []\<rparr>"]
  have "stores (ComputeMandelbrotRow \<lparr>cells = (\<lambda>i. NaN), stores = []\<rparr> 2 0) = [0, 1]"
    using t [THEN conjunct1] by (simp add: u)
  moreover have "cells (ComputeMandelbrotRow \<lparr>cells = (\<lambda>i. NaN), stores = []\<rparr> 2 0) 2 = NaN"
    using t [THEN conjunct2, THEN conjunct1, THEN spec, of 2] by simp
  moreover have "cells (ComputeMandelbrotRow \<lparr>cells = (\<lambda>i. NaN), stores = []\<rparr> 2 0) 1
      = pixel_value 2 0 1"
    using t [THEN conjunct2, THEN conjunct2, THEN conjunct1, THEN spec, of 1] by simp
  ultimately show ?thesis by (simp only: p simp_thms)
qed

text \<open>
  Without the bound the statement fails. In a grid of width 65536 and height 32769 the
  row \<open>y = 32768\<close> is claimed; its first index \<open>y * width + 0\<close> is \<open>2 ^ 31\<close>, which
  is not an \<open>int\<close>: the 32-bit result is \<open>- 2 ^ 31\<close>, and the store goes to a cell
  outside \<open>[y * width, (y + 1) * width)\<close>.
\<close>

theorem row_index_overflow_counterexample:
  "\<not> set (stores (ComputeMandelbrotRow \<lparr>cells = (\<lambda>i. NaN), stores = []\<rparr> 65536 32768))
       \<subseteq> {32768 * 65536 ..< (32768 + 1) * 65536}"
proof
  assume sub: "set (stores (ComputeMandelbrotRow \<lparr>cells = (\<lambda>i. NaN), stores = []\<rparr> 65536 32768))
       \<subseteq> {32768 * 65536 ..< (32768 + 1) * 65536}"
  have "(0::int) \<in> set [0..65536 - 1]" by simp
  then have "int32 (int32 (32768 * 65536) + 0)
      \<in> (\<lambda>x. int32 (int32 (32768 * 65536) + x)) ` set [0..65536 - 1]"
    by (rule imageI)
  then have "int32 (int32 (32768 * 65536) + 0)
      \<in> set (stores (ComputeMandelbrotRow \<lparr>cells = (\<lambda>i. NaN), stores = []\<rparr> 65536 32768))"
    by (simp only: stores_ComputeMandelbrotRow set_append set_map UnI2)
  with sub have "int32 (int32 (32768 * 65536) + 0) \<in> {32768 * 65536 ..< (32768 + 1) * 65536}"
    by (rule subsetD)
  moreover have "int32 (int32 (32768 * 65536) + 0) = - 2147483648"
    by (simp add: int32_def)
  ultimately have "- 2147483648 \<in> {32768 * 65536 ..< (32768 + 1) * (65536::int)}"
    by (simp only:)
  then show False by simp
qed

section \<open>The worker pool\<close>

text \<open>
  A worker thread runs \<open>WorkStealing\<close>. It is at the head of its loop, about to take
  the lock (\<open>AtClaim\<close>); or inside \<open>ComputeMandelbrotRow\<close> for the row it claimed, with
  the locals \<open>y\<close>, \<open>scaleX\<close>, \<open>c_im\<close> and the column \<open>x\<close> of the \<open>for\<close> loop
  (\<open>InRow\<close>); or it has left the loop (\<open>Exited\<close>).
\<close>

datatype worker = AtClaim | InRow int fval fval int | Exited

text \<open>
  The caller's thread runs \<open>ComputeMandelbrot\<close>: the loop that creates the threads,
  with its counter \<open>i\<close>; the loop that joins them, with its position in the vector;
  and the return.
\<close>

datatype caller = Spawning int | Joining nat | Returned

text \<open>
  The shared state: the global \<open>nextRow\<close>, the global vector \<open>threads\<close>, the buffer,
  and the caller's position. \<open>claims\<close> records each claim of a row when it is made,
  with the position of the claiming thread in the vector: it instruments the cursor and
  is never read.
\<close>

record state =
  nextRow :: int
  threads :: "worker list"
  buf :: buffer
  caller :: caller
  claims :: "(nat \<times> int) list"

text \<open>
  One atomic step of one thread, for \<open>hc\<close> the value of
  \<open>std::thread::hardware_concurrency()\<close>. The lock \<open>stealLock\<close> makes the test
  \<open>nextRow < height\<close> and the increment \<open>nextRow++\<close> one step; the test bounds
  \<open>nextRow\<close> by an \<open>int\<close>, so the increment does not overflow. A store to the buffer
  is one step. \<open>join\<close> waits for the thread it joins to have exited.
\<close>

inductive step :: "nat \<Rightarrow> int \<Rightarrow> int \<Rightarrow> state \<Rightarrow> state \<Rightarrow> bool"
  for hc :: nat and width :: int and height :: int where
  spawn:
    "caller s = Spawning i \<Longrightarrow> i < int hc \<Longrightarrow>
     step hc width height s (s\<lparr>threads := threads s @ [AtClaim], caller := Spawning (i + 1)\<rparr>)"
| spawned:
    "caller s = Spawning i \<Longrightarrow> \<not> i < int hc \<Longrightarrow>
     step hc width height s (s\<lparr>caller := Joining 0\<rparr>)"
| join:
    "caller s = Joining j \<Longrightarrow> j < length (threads s) \<Longrightarrow> threads s ! j = Exited \<Longrightarrow>
     step hc width height s (s\<lparr>caller := Joining (Suc j)\<rparr>)"
| joined:
    "caller s = Joining j \<Longrightarrow> \<not> j < length (threads s) \<Longrightarrow>
     step hc width height s (s\<lparr>caller := Returned\<rparr>)"
| claim:
    "t < length (threads s) \<Longrightarrow> threads s ! t = AtClaim \<Longrightarrow> nextRow s < height \<Longrightarrow>
     step hc width height s
       (s\<lparr>nextRow := nextRow s + 1,
          threads := (threads s)[t := InRow (nextRow s) (row_scaleX width) (row_c_im (nextRow s)) 0],
          claims := claims s @ [(t, nextRow s)]\<rparr>)"
| no_work:
    "t < length (threads s) \<Longrightarrow> threads s ! t = AtClaim \<Longrightarrow> \<not> nextRow s < height \<Longrightarrow>
     step hc width height s (s\<lparr>threads := (threads s)[t := Exited]\<rparr>)"
| pixel:
    "t < length (threads s) \<Longrightarrow> threads s ! t = InRow y scaleX c_im x \<Longrightarrow> x < width \<Longrightarrow>
     step hc width height s
       (s\<lparr>buf := row_pixel (buf s) width y scaleX c_im x,
          threads := (threads s)[t := InRow y scaleX c_im (x + 1)]\<rparr>)"
| row_done:
    "t < length (threads s) \<Longrightarrow> threads s ! t = InRow y scaleX c_im x \<Longrightarrow> \<not> x < width \<Longrightarrow>
     step hc width height s (s\<lparr>threads := (threads s)[t := AtClaim]\<rparr>)"

text \<open>
  The program starts with \<open>nextRow\<close> at 0 and an empty vector of threads; the caller
  passes the buffer \<open>b\<close> and enters \<open>ComputeMandelbrot\<close>.
\<close>

definition init :: "buffer \<Rightarrow> state" where
  "init b = \<lparr>nextRow = 0, threads = [], buf = b, caller = Spawning 0, claims = []\<rparr>"

definition reachable :: "nat \<Rightarrow> int \<Rightarrow> int \<Rightarrow> buffer \<Rightarrow> state \<Rightarrow> bool" where
  "reachable hc width height b s = (step hc width height)\<^sup>*\<^sup>* (init b) s"

text \<open>\<open>ComputeMandelbrot(buffer, width, height)\<close> has returned, in state \<open>s\<close>.\<close>

definition returned :: "nat \<Rightarrow> int \<Rightarrow> int \<Rightarrow> buffer \<Rightarrow> state \<Rightarrow> bool" where
  "returned hc width height b s = (reachable hc width height b s \<and> caller s = Returned)"

subsection \<open>Invariants of the pool\<close>

lemma reachable_init: "reachable hc width height b (init b)"
  by (simp add: reachable_def)

lemma reachable_step:
  "reachable hc width height b s \<Longrightarrow> step hc width height s s' \<Longrightarrow> reachable hc width height b s'"
  by (simp add: reachable_def)

lemma reachable_invariant:
  assumes "reachable hc width height b s"
    and "P (init b)"
    and "\<And>s s'. reachable hc width height b s \<Longrightarrow> P s \<Longrightarrow> step hc width height s s' \<Longrightarrow> P s'"
  shows "P s"
  using assms(1) unfolding reachable_def
proof (induction rule: rtranclp_induct)
  case base
  show ?case by (rule assms(2))
next
  case (step y z)
  then show ?case using assms(3) by (simp add: reachable_def)
qed

definition caller_ok :: "nat \<Rightarrow> state \<Rightarrow> bool" where
  "caller_ok hc s =
     (case caller s of
        Spawning i \<Rightarrow> 0 \<le> i \<and> i \<le> int hc \<and> int (length (threads s)) = i
      | Joining j \<Rightarrow> j \<le> length (threads s) \<and> length (threads s) = hc
          \<and> (\<forall>k<j. threads s ! k = Exited)
      | Returned \<Rightarrow> length (threads s) = hc \<and> (\<forall>k<hc. threads s ! k = Exited))"

lemma caller_ok_step:
  "step hc width height s s' \<Longrightarrow> caller_ok hc s \<Longrightarrow> caller_ok hc s'"
proof (induction rule: step.induct)
  case (join s j)
  then show ?case by (auto simp: caller_ok_def less_Suc_eq)
next
  case (claim t s)
  then show ?case
    by (auto simp: caller_ok_def nth_list_update split: caller.splits)
next
  case (no_work t s)
  then show ?case
    by (auto simp: caller_ok_def nth_list_update split: caller.splits)
next
  case (pixel t s y scaleX c_im x)
  then show ?case
    by (auto simp: caller_ok_def nth_list_update split: caller.splits)
next
  case (row_done t s y scaleX c_im x)
  then show ?case
    by (auto simp: caller_ok_def nth_list_update split: caller.splits)
qed (auto simp: caller_ok_def)

lemma caller_ok_reachable: "reachable hc width height b s \<Longrightarrow> caller_ok hc s"
proof (erule reachable_invariant)
  show "caller_ok hc (init b)" by (simp add: init_def caller_ok_def)
qed (blast intro: caller_ok_step)

text \<open>The cursor: between 0 and the height, and at the height once a worker has exited.\<close>

definition cursor_ok :: "int \<Rightarrow> state \<Rightarrow> bool" where
  "cursor_ok height s =
     (0 \<le> nextRow s \<and> nextRow s \<le> max 0 height
      \<and> (Exited \<in> set (threads s) \<longrightarrow> height \<le> nextRow s))"

lemma cursor_ok_step:
  "step hc width height s s' \<Longrightarrow> cursor_ok height s \<Longrightarrow> cursor_ok height s'"
proof (induction rule: step.induct)
  case (claim t s)
  then show ?case
    by (auto simp: cursor_ok_def dest!: set_update_subset_insert [THEN subsetD])
next
  case (no_work t s)
  then show ?case
    by (auto simp: cursor_ok_def dest!: set_update_subset_insert [THEN subsetD])
next
  case (pixel t s y scaleX c_im x)
  then show ?case
    by (auto simp: cursor_ok_def dest!: set_update_subset_insert [THEN subsetD])
next
  case (row_done t s y scaleX c_im x)
  then show ?case
    by (auto simp: cursor_ok_def dest!: set_update_subset_insert [THEN subsetD])
qed (auto simp: cursor_ok_def)

lemma cursor_ok_reachable: "reachable hc width height b s \<Longrightarrow> cursor_ok height s"
proof (erule reachable_invariant)
  show "cursor_ok height (init b)" by (simp add: init_def cursor_ok_def)
qed (blast intro: cursor_ok_step)






lemma returned_cursor:
  assumes "returned hc width height b s" and "1 \<le> hc"
  shows "nextRow s = max 0 height"
proof -
  from assms(1) have r: "reachable hc width height b s" and c: "caller s = Returned"
    by (simp_all add: returned_def)
  from caller_ok_reachable [OF r] c assms(2)
  have "length (threads s) = hc" "threads s ! 0 = Exited"
    by (auto simp: caller_ok_def)
  with assms(2) have "Exited \<in> set (threads s)"
    by (metis One_nat_def Suc_le_lessD nth_mem)
  with cursor_ok_reachable [OF r] show ?thesis
    by (auto simp: cursor_ok_def)
qed
subsection \<open>Every run ends, with the return of the caller\<close>

definition worker_measure :: "int \<Rightarrow> worker \<Rightarrow> nat" where
  "worker_measure width w =
     (case w of AtClaim \<Rightarrow> 1 | InRow y scaleX c_im x \<Rightarrow> nat (width - x) + 2 | Exited \<Rightarrow> 0)"

definition run_measure :: "nat \<Rightarrow> int \<Rightarrow> int \<Rightarrow> state \<Rightarrow> nat" where
  "run_measure hc width height s =
     (case caller s of
        Spawning i \<Rightarrow> 2 * nat (int hc - i) + hc + 2
      | Joining j \<Rightarrow> (hc - j) + 1
      | Returned \<Rightarrow> 0)
     + sum_list (map (worker_measure width) (threads s))
     + nat (height - nextRow s) * (nat width + 3)"

lemma sum_list_map_update:
  "t < length ws \<Longrightarrow>
     sum_list (map f (ws[t := w])) + f (ws ! t) = sum_list (map f ws) + (f w :: nat)"
proof (induction ws arbitrary: t)
  case Nil
  then show ?case by simp
next
  case (Cons a ws)
  then show ?case by (cases t) (auto simp: add.assoc add.left_commute)
qed

lemma step_decreases:
  "step hc width height s s' \<Longrightarrow> caller_ok hc s
     \<Longrightarrow> run_measure hc width height s' < run_measure hc width height s"
proof (induction rule: step.induct)
  case (spawn s i)
  then have "nat (int hc - i) = Suc (nat (int hc - (i + 1)))" by linarith
  with spawn show ?case by (simp add: run_measure_def worker_measure_def)
next
  case (spawned s i)
  then show ?case by (simp add: run_measure_def)
next
  case (join s j)
  then show ?case by (auto simp: run_measure_def caller_ok_def)
next
  case (joined s j)
  then show ?case by (simp add: run_measure_def)
next
  case (claim t s)
  from sum_list_map_update [OF claim(1), of "worker_measure width"
      "InRow (nextRow s) (row_scaleX width) (row_c_im (nextRow s)) 0"] claim(2)
  have "sum_list (map (worker_measure width) ((threads s)
          [t := InRow (nextRow s) (row_scaleX width) (row_c_im (nextRow s)) 0])) + 1
      = sum_list (map (worker_measure width) (threads s)) + (nat width + 2)"
    by (simp add: worker_measure_def)
  moreover from claim(3) have "nat (height - nextRow s) = Suc (nat (height - (nextRow s + 1)))"
    by linarith
  ultimately show ?case by (simp add: run_measure_def)
next
  case (no_work t s)
  from sum_list_map_update [OF no_work(1), of "worker_measure width" Exited] no_work(2)
  have "sum_list (map (worker_measure width) ((threads s)[t := Exited])) + 1
      = sum_list (map (worker_measure width) (threads s))"
    by (simp add: worker_measure_def)
  then show ?case by (simp add: run_measure_def)
next
  case (pixel t s y scaleX c_im x)
  from pixel(3) have "nat (width - x) = Suc (nat (width - (x + 1)))" by linarith
  with sum_list_map_update [OF pixel(1), of "worker_measure width" "InRow y scaleX c_im (x + 1)"]
    pixel(2)
  have "sum_list (map (worker_measure width) ((threads s)[t := InRow y scaleX c_im (x + 1)])) + 1
      = sum_list (map (worker_measure width) (threads s))"
    by (simp add: worker_measure_def)
  then show ?case by (simp add: run_measure_def)
next
  case (row_done t s y scaleX c_im x)
  from sum_list_map_update [OF row_done(1), of "worker_measure width" AtClaim] row_done(2)
  have "sum_list (map (worker_measure width) ((threads s)[t := AtClaim])) + (nat (width - x) + 2)
      = sum_list (map (worker_measure width) (threads s)) + 1"
    by (simp add: worker_measure_def)
  then show ?case by (simp add: run_measure_def)
qed

lemma progress:
  assumes "caller s \<noteq> Returned"
  shows "\<exists>s'. step hc width height s s'"
proof (cases "caller s")
  case (Spawning i)
  then show ?thesis
    by (cases "i < int hc") (blast intro: step.spawn step.spawned)+
next
  case (Joining j)
  show ?thesis
  proof (cases "j < length (threads s)")
    case False
    with Joining show ?thesis by (blast intro: step.joined)
  next
    case True
    show ?thesis
    proof (cases "threads s ! j")
      case AtClaim
      with True show ?thesis
        by (cases "nextRow s < height") (blast intro: step.claim step.no_work)+
    next
      case (InRow y scaleX c_im x)
      with True show ?thesis
        by (cases "x < width") (blast intro: step.pixel step.row_done)+
    next
      case Exited
      with True Joining show ?thesis by (blast intro: step.join)
    qed
  qed
next
  case Returned
  with assms show ?thesis by simp
qed

lemma can_return:
  "reachable hc width height b s
     \<Longrightarrow> \<exists>s'. (step hc width height)\<^sup>*\<^sup>* s s' \<and> caller s' = Returned"
proof (induction "run_measure hc width height s" arbitrary: s rule: less_induct)
  case less
  show ?case
  proof (cases "caller s = Returned")
    case True
    then show ?thesis by blast
  next
    case False
    then obtain s1 where s1: "step hc width height s s1"
      using progress by blast
    have "run_measure hc width height s1 < run_measure hc width height s"
      using s1 caller_ok_reachable [OF less.prems] by (rule step_decreases)
    moreover have "reachable hc width height b s1"
      using less.prems s1 by (rule reachable_step)
    ultimately obtain s' where "(step hc width height)\<^sup>*\<^sup>* s1 s'" "caller s' = Returned"
      using less.hyps by blast
    with s1 show ?thesis
      by (blast intro: converse_rtranclp_into_rtranclp)
  qed
qed

lemma compute_returns: "\<exists>s. returned hc width height b s"
  using can_return [OF reachable_init, of hc width height b]
  by (auto simp: returned_def reachable_def)

lemma runs_are_finite:
  "wf {(s', s). reachable hc width height b s \<and> step hc width height s s'}"
proof (rule wf_subset [OF wf_measure [of "run_measure hc width height"]])
  show "{(s', s). reachable hc width height b s \<and> step hc width height s s'}
      \<subseteq> measure (run_measure hc width height)"
    using step_decreases caller_ok_reachable by auto
qed

subsection \<open>The row cursor\<close>



subsection \<open>The size of the pool\<close>

text \<open>
  \<open>ComputeMandelbrot\<close> creates exactly as many workers as
  \<open>std::thread::hardware_concurrency()\<close> reports, and has joined all of them when it
  returns.
\<close>

lemma pool_size_is_detected_count:
  assumes "returned hc width height b s"
  shows "length (threads s) = hc \<and> (\<forall>t<hc. threads s ! t = Exited)"
  using caller_ok_reachable [of hc width height b s] assms
  by (simp add: returned_def caller_ok_def)

text \<open>
  The function takes the detected count as it is and sets no minimum. When the
  detection reports 0, no state of the pass has a thread, a claim or a store: the pass
  computes nothing, whatever the grid.
\<close>

lemma nothing_computed_without_workers:
  assumes "reachable 0 width height b s"
  shows "threads s = [] \<and> nextRow s = 0 \<and> buf s = b \<and> claims s = []"
  using assms
proof (rule reachable_invariant)
  show "threads (init b) = [] \<and> nextRow (init b) = 0 \<and> buf (init b) = b \<and> claims (init b) = []"
    by (simp add: init_def)
next
  fix s s'
  assume r: "reachable 0 width height b s"
    and inv: "threads s = [] \<and> nextRow s = 0 \<and> buf s = b \<and> claims s = []"
    and st: "step 0 width height s s'"
  from caller_ok_reachable [OF r] have c: "caller_ok 0 s" .
  from st inv c
  show "threads s' = [] \<and> nextRow s' = 0 \<and> buf s' = b \<and> claims s' = []"
  proof (induction rule: step.induct)
    case (spawn s i)
    then show ?case by (simp add: caller_ok_def)
  qed simp_all
qed

text \<open>
  C6. The claim promises at least one worker even when the detection of the hardware
  concurrency reports zero. The program does not keep it: with 0 detected, the creating
  loop of \<open>ComputeMandelbrot\<close> does not run, the joining loop has nothing to join, and
  the function returns with an empty pool, no row claimed and no cell of the buffer
  stored to, although it is there to compute the set and its caller draws the buffer
  next. Here for a grid of one pixel.
\<close>

theorem no_worker_when_none_detected:
  "returned 0 1 1 \<lparr>cells = (\<lambda>i. NaN), stores = []\<rparr>
     \<lparr>nextRow = 0, threads = [], buf = \<lparr>cells = (\<lambda>i. NaN), stores = []\<rparr>,
      caller = Returned, claims = []\<rparr>
   \<and> length (threads
     \<lparr>nextRow = 0, threads = [], buf = \<lparr>cells = (\<lambda>i. NaN), stores = []\<rparr>,
      caller = Returned, claims = []\<rparr>) = 0
   \<and> stores (buf
     \<lparr>nextRow = 0, threads = [], buf = \<lparr>cells = (\<lambda>i. NaN), stores = []\<rparr>,
      caller = Returned, claims = []\<rparr>) = []"
proof -
  let ?b = "\<lparr>cells = (\<lambda>i. NaN), stores = []\<rparr>"
  have "step 0 1 1 (init ?b) (init ?b\<lparr>caller := Joining 0\<rparr>)"
    by (rule step.spawned [of _ 0]) (simp_all add: init_def)
  moreover have "step 0 1 1 (init ?b\<lparr>caller := Joining 0\<rparr>)
      (init ?b\<lparr>caller := Joining 0\<rparr>\<lparr>caller := Returned\<rparr>)"
    by (rule step.joined [of _ 0]) (simp_all add: init_def)
  ultimately have "(step 0 1 1)\<^sup>*\<^sup>* (init ?b)
      (init ?b\<lparr>caller := Joining 0\<rparr>\<lparr>caller := Returned\<rparr>)"
    by (rule rtranclp.rtrancl_into_rtrancl [OF r_into_rtranclp])
  moreover have "init ?b\<lparr>caller := Joining 0\<rparr>\<lparr>caller := Returned\<rparr>
      = \<lparr>nextRow = 0, threads = [], buf = ?b, caller = Returned, claims = []\<rparr>"
    by (simp add: init_def)
  ultimately have "reachable 0 1 1 ?b
      \<lparr>nextRow = 0, threads = [], buf = ?b, caller = Returned, claims = []\<rparr>"
    by (simp only: reachable_def)
  then show ?thesis
    by (simp add: returned_def)
qed

subsection \<open>Iteration counts are exact in \<open>float\<close>\<close>

lemma round_even_of_int: "round_even (of_int z) = z"
  by (simp add: round_even_def)

lemma pow2_nonpos: "e \<le> 0 \<Longrightarrow> pow2 e = 1 / 2 ^ nat (- e)"
  by (cases "e = 0") (simp_all add: pow2_def)

lemma ilog2_of_int_le:
  assumes "0 < m" and "m < 2 ^ 24"
  shows "ilog2 (of_int m) \<le> 23"
proof -
  have "(2::int) ^ nat (bitlen m - 1) \<le> m"
    using bitlen_bounds [OF assms(1)] by simp
  with assms(2) have "(2::int) ^ nat (bitlen m - 1) < 2 ^ 24" by linarith
  then have "nat (bitlen m - 1) < 24"
    by (rule power_less_imp_less_exp [rotated]) simp
  then have "bitlen m - 1 \<le> 23" by linarith
  moreover have "bitlen 1 = 1" by (subst compute_bitlen) simp
  ultimately show ?thesis
    by (simp add: ilog2_def Let_def)
qed

lemma fround_int_exact:
  assumes "\<bar>n\<bar> < 2 ^ 24"
  shows "fround 24 127 (of_int n) = Fin (of_int n)"
proof (cases "n = 0")
  case True
  then show ?thesis by (simp add: fround_zero)
next
  case False
  define e where "e = max (ilog2 \<bar>of_int n\<bar>) (1 - 127)"
  define k where "k = nat (23 - e)"
  have "\<bar>of_int n :: rat\<bar> = of_int \<bar>n\<bar>" by simp
  moreover have "ilog2 (of_int \<bar>n\<bar>) \<le> 23"
    using False assms by (intro ilog2_of_int_le) auto
  ultimately have e: "e \<le> 23" by (simp add: e_def)
  then have u: "pow2 (e - 24 + 1) = 1 / 2 ^ k"
    using pow2_nonpos [of "e - 24 + 1"] by (simp add: k_def algebra_simps)
  have "(of_int n :: rat) / (1 / 2 ^ k) = of_int (n * 2 ^ k)" by simp
  then have "round_even (of_int n / (1 / 2 ^ k)) = n * 2 ^ k"
    by (simp only: round_even_of_int)
  then have "of_int (round_even (of_int n / pow2 (e - 24 + 1))) * pow2 (e - 24 + 1)
      = (of_int (n * 2 ^ k) :: rat) * (1 / 2 ^ k)"
    by (simp only: u)
  then have r: "of_int (round_even (of_int n / pow2 (e - 24 + 1))) * pow2 (e - 24 + 1)
      = (of_int n :: rat)"
    by simp
  have "fround 24 127 (of_int n) = Fin (of_int (round_even (of_int n / pow2 (e - 24 + 1)))
      * pow2 (e - 24 + 1))"
    unfolding fround_def Let_def e_def [symmetric] using False e by simp
  with r show ?thesis by simp
qed

lemma i2f_iterations:
  "0 \<le> n \<Longrightarrow> n \<le> MAX_ITERATIONS \<Longrightarrow> i2f n = Fin (of_int n)"
  unfolding of_int_f_def by (rule fround_int_exact) (simp add: MAX_ITERATIONS_def)

lemma pixel_value_range:
  "\<exists>n. 0 \<le> n \<and> n \<le> MAX_ITERATIONS \<and> pixel_value width y x = Fin (of_int n)"
proof -
  let ?n = "escape_iterations (f32_add MIN_RE (f32_mul (i2f x) (row_scaleX width))) (row_c_im y)"
  have "0 \<le> ?n \<and> ?n \<le> MAX_ITERATIONS"
    unfolding escape_iterations_def
    using mandel_while_range [of 0] by (simp add: MAX_ITERATIONS_def)
  then show ?thesis
    using i2f_iterations [of ?n] by (auto simp: pixel_value_def)
qed

subsection \<open>What the workers have stored\<close>

text \<open>
  A worker inside a row holds a row below the cursor and the two values of lines 31 and
  32 for that row.
\<close>

definition workers_ok :: "int \<Rightarrow> state \<Rightarrow> bool" where
  "workers_ok width s =
     (\<forall>t y scaleX c_im x. t < length (threads s) \<and> threads s ! t = InRow y scaleX c_im x
        \<longrightarrow> 0 \<le> y \<and> y < nextRow s \<and> scaleX = row_scaleX width \<and> c_im = row_c_im y \<and> 0 \<le> x)"

lemma workers_ok_update:
  assumes "workers_ok width s" and "threads s' = (threads s)[t := w]"
    and "nextRow s \<le> nextRow s'"
    and "\<And>y scaleX c_im x. w = InRow y scaleX c_im x
           \<Longrightarrow> 0 \<le> y \<and> y < nextRow s' \<and> scaleX = row_scaleX width \<and> c_im = row_c_im y \<and> 0 \<le> x"
  shows "workers_ok width s'"
  unfolding workers_ok_def
proof (intro allI impI)
  fix u y scaleX c_im x
  assume a: "u < length (threads s') \<and> threads s' ! u = InRow y scaleX c_im x"
  show "0 \<le> y \<and> y < nextRow s' \<and> scaleX = row_scaleX width \<and> c_im = row_c_im y \<and> 0 \<le> x"
  proof (cases "u = t")
    case True
    from a assms(2) True have "t < length (threads s)" by simp
    with a assms(2) True have "w = InRow y scaleX c_im x" by simp
    then show ?thesis by (rule assms(4))
  next
    case False
    with a assms(2) have "u < length (threads s) \<and> threads s ! u = InRow y scaleX c_im x"
      by simp
    with assms(1) have "0 \<le> y \<and> y < nextRow s \<and> scaleX = row_scaleX width
        \<and> c_im = row_c_im y \<and> 0 \<le> x"
      unfolding workers_ok_def by blast
    with assms(3) show ?thesis by simp
  qed
qed

lemma workers_ok_step:
  "step hc width height s s' \<Longrightarrow> 0 \<le> nextRow s \<Longrightarrow> workers_ok width s \<Longrightarrow> workers_ok width s'"
proof (induction rule: step.induct)
  case (spawn s i)
  then show ?case by (auto simp: workers_ok_def nth_append split: if_splits)
next
  case (claim t s)
  from claim(5) show ?case
    by (rule workers_ok_update [where t = t]) (use claim in auto)
next
  case (no_work t s)
  from no_work(5) show ?case
    by (rule workers_ok_update [where t = t]) auto
next
  case (pixel t s y scaleX c_im x)
  from pixel(1,2,5) have "0 \<le> y \<and> y < nextRow s \<and> scaleX = row_scaleX width
      \<and> c_im = row_c_im y \<and> 0 \<le> x"
    unfolding workers_ok_def by blast
  then show ?case
    using pixel(5) by (intro workers_ok_update [where t = t and s = s, OF pixel(5)]) auto
next
  case (row_done t s y scaleX c_im x)
  from row_done(5) show ?case
    by (rule workers_ok_update [where t = t]) auto
qed (auto simp: workers_ok_def)

lemma workers_ok_reachable: "reachable hc width height b s \<Longrightarrow> workers_ok width s"
proof (erule reachable_invariant)
  show "workers_ok width (init b)" by (simp add: init_def workers_ok_def)
next
  fix s s'
  assume "reachable hc width height b s" "workers_ok width s" "step hc width height s s'"
  then show "workers_ok width s'"
    using workers_ok_step [of hc width height s s'] cursor_ok_reachable [of hc width height b s]
    by (simp add: cursor_ok_def)
qed

text \<open>
  Pixel \<open>(x, y)\<close> is done when its cell has been stored to and holds the pixel's value;
  it is pending while a worker is inside row \<open>y\<close> at a column not beyond \<open>x\<close>.
\<close>

definition cell_done :: "int \<Rightarrow> state \<Rightarrow> int \<Rightarrow> int \<Rightarrow> bool" where
  "cell_done width s y x =
     (y * width + x \<in> set (stores (buf s))
      \<and> cells (buf s) (y * width + x) = pixel_value width y x)"

definition pending :: "state \<Rightarrow> int \<Rightarrow> int \<Rightarrow> bool" where
  "pending s y x =
     (\<exists>t scaleX c_im x'. t < length (threads s) \<and> threads s ! t = InRow y scaleX c_im x' \<and> x' \<le> x)"

definition cells_ok :: "int \<Rightarrow> state \<Rightarrow> bool" where
  "cells_ok width s =
     (\<forall>y x. 0 \<le> y \<and> y < nextRow s \<and> 0 \<le> x \<and> x < width
        \<longrightarrow> cell_done width s y x \<or> pending s y x)"

lemma flat_index_inj:
  assumes "0 \<le> x" "x < width" "0 \<le> x'" "x' < width" "y * width + x = y' * width + x'"
  shows "y = y' \<and> x = (x' :: int)"
proof -
  have w: "width \<noteq> 0" using assms by auto
  have "(y * width + x) div width = y + x div width"
    using w by (rule div_mult_self3)
  moreover have "(y' * width + x') div width = y' + x' div width"
    using w by (rule div_mult_self3)
  moreover have "x div width = 0" "x' div width = 0"
    using assms by (simp_all add: div_pos_pos_trivial)
  ultimately have "y = y'" using assms(5) by simp
  with assms(5) show ?thesis by simp
qed

lemma pending_append:
  assumes "pending s y x" and "threads s' = threads s @ [w]"
  shows "pending s' y x"
proof -
  from assms(1) obtain u scaleX c_im x' where u: "u < length (threads s)"
      "threads s ! u = InRow y scaleX c_im x'" "x' \<le> x"
    by (auto simp: pending_def)
  with assms(2) have "u < length (threads s')" "threads s' ! u = InRow y scaleX c_im x'"
    by (simp_all add: nth_append)
  with u(3) show ?thesis unfolding pending_def by blast
qed

lemma pending_update_other:
  assumes "pending s y x" and "t < length (threads s)"
    and "\<And>scaleX c_im x'. threads s ! t = InRow y scaleX c_im x' \<Longrightarrow> x < x'"
    and "threads s' = (threads s)[t := w]"
  shows "pending s' y x"
proof -
  from assms(1) obtain u scaleX c_im x' where u: "u < length (threads s)"
      "threads s ! u = InRow y scaleX c_im x'" "x' \<le> x"
    by (auto simp: pending_def)
  with assms(3) have "u \<noteq> t" by fastforce
  with u assms(4) have "u < length (threads s')" "threads s' ! u = InRow y scaleX c_im x'"
    by simp_all
  with u(3) show ?thesis unfolding pending_def by blast
qed

lemma cells_ok_pixel:
  assumes fits: "grid_fits_int width height"
    and wk: "workers_ok width s" and cu: "cursor_ok height s" and ok: "cells_ok width s"
    and t: "t < length (threads s)" "threads s ! t = InRow y0 scaleX c_im x0" "x0 < width"
  shows "cells_ok width (s\<lparr>buf := row_pixel (buf s) width y0 scaleX c_im x0,
           threads := (threads s)[t := InRow y0 scaleX c_im (x0 + 1)]\<rparr>)"
    (is "cells_ok width ?s'")
proof -
  from wk t have y0: "0 \<le> y0" "y0 < nextRow s" and x0: "0 \<le> x0"
    and loc: "scaleX = row_scaleX width" "c_im = row_c_im y0"
    unfolding workers_ok_def by blast+
  from cu y0 have "y0 < height" by (auto simp: cursor_ok_def)
  note row = row_fits [OF fits y0(1) this]
  have ix: "int32 (int32 (y0 * width) + x0) = y0 * width + x0"
    using row x0 t(3) by (rule index_no_wrap)
  have st: "stores (row_pixel (buf s) width y0 scaleX c_im x0)
      = stores (buf s) @ [y0 * width + x0]"
    by (simp add: stores_row_pixel ix)
  have ce: "cells (row_pixel (buf s) width y0 scaleX c_im x0)
      = (cells (buf s))(y0 * width + x0 := pixel_value width y0 x0)"
    by (simp add: cells_row_pixel ix pixel_value_def loc)
  show ?thesis
    unfolding cells_ok_def
  proof (intro allI impI)
    fix y x
    assume "0 \<le> y \<and> y < nextRow ?s' \<and> 0 \<le> x \<and> x < width"
    then have r: "0 \<le> y" "y < nextRow s" "0 \<le> x" "x < width" by simp_all
    show "cell_done width ?s' y x \<or> pending ?s' y x"
    proof (cases "y = y0 \<and> x = x0")
      case True
      then show ?thesis by (simp add: cell_done_def st ce)
    next
      case False
      then have ne: "y * width + x \<noteq> y0 * width + x0"
        using flat_index_inj [OF r(3,4) x0 t(3)] by blast
      from ok r have "cell_done width s y x \<or> pending s y x"
        unfolding cells_ok_def by blast
      then show ?thesis
      proof
        assume "cell_done width s y x"
        then have "cell_done width ?s' y x"
          using ne by (simp add: cell_done_def st ce)
        then show ?thesis ..
      next
        assume p: "pending s y x"
        show ?thesis
        proof (cases "y = y0 \<and> x0 \<le> x")
          case True
          with False have "x0 + 1 \<le> x" by auto
          with True t(1) have "pending ?s' y x"
            unfolding pending_def
            by (intro exI [of _ t] exI [of _ scaleX] exI [of _ c_im] exI [of _ "x0 + 1"]) simp
          then show ?thesis ..
        next
          case False
          have "pending ?s' y x"
            using p t(1)
          proof (rule pending_update_other)
            fix sx ci x'
            assume "threads s ! t = InRow y sx ci x'"
            with t(2) False show "x < x'" by auto
          qed simp
          then show ?thesis ..
        qed
      qed
    qed
  qed
qed

lemma cells_ok_same_buf:
  assumes "cells_ok width s" and "nextRow s' = nextRow s" and "buf s' = buf s"
    and "\<And>y x. x < width \<Longrightarrow> pending s y x \<Longrightarrow> pending s' y x"
  shows "cells_ok width s'"
  unfolding cells_ok_def
proof (intro allI impI)
  fix y x
  assume a: "0 \<le> y \<and> y < nextRow s' \<and> 0 \<le> x \<and> x < width"
  with assms(1,2) have "cell_done width s y x \<or> pending s y x"
    unfolding cells_ok_def by simp
  then show "cell_done width s' y x \<or> pending s' y x"
  proof
    assume "cell_done width s y x"
    then show ?thesis by (simp add: cell_done_def assms(3))
  next
    assume "pending s y x"
    with a have "pending s' y x" by (intro assms(4)) simp_all
    then show ?thesis ..
  qed
qed

lemma cells_ok_step:
  assumes "step hc width height s s'" and "grid_fits_int width height"
    and "workers_ok width s" and "cursor_ok height s" and "cells_ok width s"
  shows "cells_ok width s'"
  using assms
proof (induction rule: step.induct)
  case (spawn s i)
  from spawn(6) show ?case
    by (rule cells_ok_same_buf) (simp_all add: pending_append)
next
  case (spawned s i)
  from spawned(6) show ?case
    by (rule cells_ok_same_buf) (simp_all add: pending_def)
next
  case (join s j)
  from join(7) show ?case
    by (rule cells_ok_same_buf) (simp_all add: pending_def)
next
  case (joined s j)
  from joined(6) show ?case
    by (rule cells_ok_same_buf) (simp_all add: pending_def)
next
  case (claim t s)
  let ?s' = "s\<lparr>nextRow := nextRow s + 1,
      threads := (threads s)[t := InRow (nextRow s) (row_scaleX width) (row_c_im (nextRow s)) 0],
      claims := claims s @ [(t, nextRow s)]\<rparr>"
  show ?case
    unfolding cells_ok_def
  proof (intro allI impI)
    fix y x
    assume "0 \<le> y \<and> y < nextRow ?s' \<and> 0 \<le> x \<and> x < width"
    then have r: "0 \<le> y" "y \<le> nextRow s" "0 \<le> x" "x < width" by simp_all
    show "cell_done width ?s' y x \<or> pending ?s' y x"
    proof (cases "y = nextRow s")
      case True
      with claim(1) r(3) have "pending ?s' y x"
        unfolding pending_def
        by (intro exI [of _ t] exI [of _ "row_scaleX width"] exI [of _ "row_c_im (nextRow s)"]
            exI [of _ 0]) simp
      then show ?thesis ..
    next
      case False
      with r claim(7) have "cell_done width s y x \<or> pending s y x"
        unfolding cells_ok_def by simp
      then show ?thesis
      proof
        assume "cell_done width s y x"
        then show ?thesis by (simp add: cell_done_def)
      next
        assume "pending s y x"
        then have "pending ?s' y x"
          using claim(1)
          by (rule pending_update_other) (simp_all add: claim(2))
        then show ?thesis ..
      qed
    qed
  qed
next
  case (no_work t s)
  from no_work(7) show ?case
  proof (rule cells_ok_same_buf)
    fix y x
    assume "pending s y x"
    then show "pending (s\<lparr>threads := (threads s)[t := Exited]\<rparr>) y x"
      using no_work(1)
      by (rule pending_update_other) (simp_all add: no_work(2))
  qed simp_all
next
  case (pixel t s y scaleX c_im x)
  show ?case by (rule cells_ok_pixel [OF pixel(4-7) pixel(1-3)])
next
  case (row_done t s y0 scaleX c_im x0)
  from row_done(7) show ?case
  proof (rule cells_ok_same_buf)
    fix y x
    assume x: "x < width" and p: "pending s y x"
    from p row_done(1) show "pending (s\<lparr>threads := (threads s)[t := AtClaim]\<rparr>) y x"
    proof (rule pending_update_other)
      fix sx ci x'
      assume "threads s ! t = InRow y sx ci x'"
      with row_done(2,3) x show "x < x'" by auto
    qed simp
  qed simp_all
qed

lemma cells_ok_reachable:
  assumes "grid_fits_int width height" and "reachable hc width height b s"
  shows "cells_ok width s"
  using assms(2)
proof (rule reachable_invariant)
  show "cells_ok width (init b)" by (auto simp: init_def cells_ok_def)
next
  fix s s'
  assume "reachable hc width height b s" "cells_ok width s" "step hc width height s s'"
  then show "cells_ok width s'"
    using cells_ok_step [OF _ assms(1)] workers_ok_reachable cursor_ok_reachable by blast
qed

lemma returned_cell_done:
  assumes "returned hc width height b s" and "1 \<le> hc" and "grid_fits_int width height"
    and "0 \<le> y" "y < height" "0 \<le> x" "x < width"
  shows "cell_done width s y x"
proof -
  from assms(1) have r: "reachable hc width height b s" and c: "caller s = Returned"
    by (simp_all add: returned_def)
  have "nextRow s = max 0 height" using assms(1,2) by (rule returned_cursor)
  with assms(4,5) have "y < nextRow s" by simp
  with cells_ok_reachable [OF assms(3) r] assms(4,6,7)
  have "cell_done width s y x \<or> pending s y x"
    unfolding cells_ok_def by blast
  moreover have "\<not> pending s y x"
    using caller_ok_reachable [OF r] c by (auto simp: caller_ok_def pending_def)
  ultimately show ?thesis by blast
qed

lemma stores_within_int:
  assumes "reachable hc width height b s"
  shows "set (stores (buf s)) \<subseteq> set (stores b) \<union> {- (2 ^ 31)..<2 ^ 31}
         \<and> (\<forall>i. \<not> (- (2 ^ 31) \<le> i \<and> i < 2 ^ 31) \<longrightarrow> cells (buf s) i = cells b i)"
  using assms
proof (rule reachable_invariant)
  show "set (stores (buf (init b))) \<subseteq> set (stores b) \<union> {- (2 ^ 31)..<2 ^ 31}
      \<and> (\<forall>i. \<not> (- (2 ^ 31) \<le> i \<and> i < 2 ^ 31) \<longrightarrow> cells (buf (init b)) i = cells b i)"
    by (simp add: init_def)
next
  fix s s'
  assume inv: "set (stores (buf s)) \<subseteq> set (stores b) \<union> {- (2 ^ 31)..<2 ^ 31}
      \<and> (\<forall>i. \<not> (- (2 ^ 31) \<le> i \<and> i < 2 ^ 31) \<longrightarrow> cells (buf s) i = cells b i)"
    and "step hc width height s s'"
  from this(2) inv
  show "set (stores (buf s')) \<subseteq> set (stores b) \<union> {- (2 ^ 31)..<2 ^ 31}
      \<and> (\<forall>i. \<not> (- (2 ^ 31) \<le> i \<and> i < 2 ^ 31) \<longrightarrow> cells (buf s') i = cells b i)"
  proof (induction rule: step.induct)
    case (pixel t s y scaleX c_im x)
    have "- (2 ^ 31) \<le> int32 (int32 (y * width) + x) \<and> int32 (int32 (y * width) + x) < 2 ^ 31"
      by (rule int32_range)
    with pixel(4) show ?case
      by (auto simp: stores_row_pixel cells_row_pixel)
  qed simp_all
qed

lemma returned_cell:
  assumes "returned hc width height b s" and "1 \<le> hc" and "grid_fits_int width height"
    and "0 \<le> i" and "i < width * height"
  shows "i \<in> set (stores (buf s))
         \<and> cells (buf s) i = pixel_value width (i div width) (i mod width)"
proof -
  from assms(3) have w0: "0 \<le> width" and h0: "0 \<le> height"
    by (simp_all add: grid_fits_int_def)
  have w: "0 < width"
  proof (rule ccontr)
    assume "\<not> 0 < width"
    with w0 have "width = 0" by simp
    with assms(4,5) show False by simp
  qed
  have x: "0 \<le> i mod width" "i mod width < width" using w by simp_all
  have y: "0 \<le> i div width" using assms(4) w by (simp add: pos_imp_zdiv_nonneg_iff)
  have i: "i div width * width + i mod width = i" by simp
  have "i div width * width \<le> i" using x(1) i by linarith
  with assms(5) have "i div width * width < height * width" by (simp add: mult.commute)
  then have "i div width < height" using w by (simp add: mult_less_cancel_right_pos)
  from returned_cell_done [OF assms(1,2,3) y this x]
  show ?thesis by (simp add: cell_done_def i)
qed

subsection \<open>The buffer after the pass\<close>

text \<open>
  C1, for a grid whose indices fit an \<open>int\<close>. For every such grid with width and
  height at least 1, every number of workers at least 1 and every initial buffer,
  \<open>ComputeMandelbrot\<close> returns, and whenever it has returned every cell of the
  \<open>width * height\<close> cells has been stored to and holds an integer between 0 and
  \<open>MAX_ITERATIONS\<close>.
\<close>

theorem every_cell_written_in_range:
  assumes "grid_fits_int width height" and "1 \<le> width" and "1 \<le> height" and "1 \<le> hc"
  shows "(\<exists>s. returned hc width height b s)
         \<and> (\<forall>s i. returned hc width height b s \<and> 0 \<le> i \<and> i < width * height
               \<longrightarrow> i \<in> set (stores (buf s))
                   \<and> (\<exists>n. 0 \<le> n \<and> n \<le> MAX_ITERATIONS \<and> cells (buf s) i = Fin (of_int n)))"
proof (intro conjI allI impI)
  show "\<exists>s. returned hc width height b s" by (rule compute_returns)
next
  fix s i
  assume a: "returned hc width height b s \<and> 0 \<le> i \<and> i < width * height"
  then have "returned hc width height b s" "0 \<le> i" "i < width * height" by simp_all
  from returned_cell [OF this(1) assms(4,1) this(2,3)]
  have "i \<in> set (stores (buf s))
      \<and> cells (buf s) i = pixel_value width (i div width) (i mod width)" .
  then show "i \<in> set (stores (buf s))"
    and "\<exists>n. 0 \<le> n \<and> n \<le> MAX_ITERATIONS \<and> cells (buf s) i = Fin (of_int n)"
    using pixel_value_range [of width "i div width" "i mod width"] by simp_all
qed

theorem every_cell_written_in_range_witness:
  "\<exists>s. returned 1 1 1 \<lparr>cells = (\<lambda>i. NaN), stores = []\<rparr> s
       \<and> 0 \<in> set (stores (buf s))
       \<and> (\<exists>n. 0 \<le> n \<and> n \<le> MAX_ITERATIONS \<and> cells (buf s) 0 = Fin (of_int n))"
proof -
  have g: "grid_fits_int 1 1" by (simp add: grid_fits_int_def)
  note t = every_cell_written_in_range [OF g order_refl order_refl order_refl,
      of "\<lparr>cells = (\<lambda>i. NaN), stores = []\<rparr>"]
  from t obtain s where s: "returned 1 1 1 \<lparr>cells = (\<lambda>i. NaN), stores = []\<rparr> s"
    by blast
  with t have "0 \<in> set (stores (buf s))
      \<and> (\<exists>n. 0 \<le> n \<and> n \<le> MAX_ITERATIONS \<and> cells (buf s) 0 = Fin (of_int n))"
    by simp
  with s show ?thesis by (intro exI [of _ s]) simp
qed

text \<open>
  Without the bound the statement fails. A grid of width 65536 and height 32769 has
  \<open>2 ^ 31 + 65536\<close> cells; the program computes every index as an \<open>int\<close>, so no store
  ever goes to the cell \<open>2 ^ 31\<close>: after the return it still holds what the caller
  left there.
\<close>

theorem cell_beyond_int_unwritten_counterexample:
  "\<not> (\<forall>s i. returned 1 65536 32769 \<lparr>cells = (\<lambda>i. NaN), stores = []\<rparr> s
            \<and> 0 \<le> i \<and> i < 65536 * 32769
         \<longrightarrow> i \<in> set (stores (buf s))
             \<and> (\<exists>n. 0 \<le> n \<and> n \<le> MAX_ITERATIONS \<and> cells (buf s) i = Fin (of_int n)))"
proof
  assume all: "\<forall>s i. returned 1 65536 32769 \<lparr>cells = (\<lambda>i. NaN), stores = []\<rparr> s
            \<and> 0 \<le> i \<and> i < 65536 * 32769
         \<longrightarrow> i \<in> set (stores (buf s))
             \<and> (\<exists>n. 0 \<le> n \<and> n \<le> MAX_ITERATIONS \<and> cells (buf s) i = Fin (of_int n))"
  obtain s where s: "returned 1 65536 32769 \<lparr>cells = (\<lambda>i. NaN), stores = []\<rparr> s"
    using compute_returns by blast
  with all [THEN spec, THEN spec, of s 2147483648]
  have "2147483648 \<in> set (stores (buf s))" by simp
  moreover have "set (stores (buf s)) \<subseteq> {- (2 ^ 31)..<2 ^ 31}"
    using stores_within_int [of 1 65536 32769 "\<lparr>cells = (\<lambda>i. NaN), stores = []\<rparr>" s] s
    by (simp add: returned_def)
  ultimately have "(2147483648::int) \<in> {- (2 ^ 31)..<2 ^ 31}" by (rule subsetD [rotated])
  then show False by simp
qed

subsection \<open>The result does not depend on the pool\<close>

text \<open>
  C4, for a grid whose indices fit an \<open>int\<close>. Two passes over the same grid, with any
  two numbers of workers at least 1, any two schedules and any two initial buffers, leave
  the same value in every cell of the \<open>width * height\<close> cells.
\<close>

theorem same_buffer_for_any_worker_count:
  assumes "grid_fits_int width height" and "1 \<le> hc1" and "1 \<le> hc2"
    and "returned hc1 width height b1 s1" and "returned hc2 width height b2 s2"
    and "0 \<le> i" and "i < width * height"
  shows "cells (buf s1) i = cells (buf s2) i"
  using returned_cell [OF assms(4,2,1,6,7)] returned_cell [OF assms(5,3,1,6,7)]
  by simp

theorem same_buffer_for_any_worker_count_witness:
  "\<exists>s1 s2. returned 1 1 1 \<lparr>cells = (\<lambda>i. Fin 0), stores = []\<rparr> s1
       \<and> returned 2 1 1 \<lparr>cells = (\<lambda>i. Fin 1), stores = []\<rparr> s2
       \<and> cells (buf s1) 0 = cells (buf s2) 0"
proof -
  have g: "grid_fits_int 1 1" by (simp add: grid_fits_int_def)
  obtain s1 where s1: "returned 1 1 1 \<lparr>cells = (\<lambda>i. Fin 0), stores = []\<rparr> s1"
    using compute_returns by blast
  obtain s2 where s2: "returned 2 1 1 \<lparr>cells = (\<lambda>i. Fin 1), stores = []\<rparr> s2"
    using compute_returns by blast
  have "cells (buf s1) 0 = cells (buf s2) 0"
    by (rule same_buffer_for_any_worker_count [OF g _ _ s1 s2]) simp_all
  with s1 s2 show ?thesis by (intro exI [of _ s1] exI [of _ s2]) simp
qed

text \<open>
  Without the bound the statement fails. In the grid of width 65536 and height 32769 the
  cell \<open>2 ^ 31\<close> is never stored to, so two passes, one with 1 worker and one with 2,
  end with whatever their buffers held there before.
\<close>

theorem unwritten_cell_differs_counterexample:
  "\<not> (\<forall>s1 s2 i. returned 1 65536 32769 \<lparr>cells = (\<lambda>i. Fin 0), stores = []\<rparr> s1
            \<and> returned 2 65536 32769 \<lparr>cells = (\<lambda>i. Fin 1), stores = []\<rparr> s2
            \<and> 0 \<le> i \<and> i < 65536 * 32769
         \<longrightarrow> cells (buf s1) i = cells (buf s2) i)"
proof
  assume all: "\<forall>s1 s2 i. returned 1 65536 32769 \<lparr>cells = (\<lambda>i. Fin 0), stores = []\<rparr> s1
            \<and> returned 2 65536 32769 \<lparr>cells = (\<lambda>i. Fin 1), stores = []\<rparr> s2
            \<and> 0 \<le> i \<and> i < 65536 * 32769
         \<longrightarrow> cells (buf s1) i = cells (buf s2) i"
  obtain s1 where s1: "returned 1 65536 32769 \<lparr>cells = (\<lambda>i. Fin 0), stores = []\<rparr> s1"
    using compute_returns by blast
  obtain s2 where s2: "returned 2 65536 32769 \<lparr>cells = (\<lambda>i. Fin 1), stores = []\<rparr> s2"
    using compute_returns by blast
  from all [THEN spec, THEN spec, THEN spec, of s1 s2 2147483648] s1 s2
  have "cells (buf s1) 2147483648 = cells (buf s2) 2147483648" by simp
  moreover have "cells (buf s1) 2147483648 = Fin 0"
    using stores_within_int [of 1 65536 32769 "\<lparr>cells = (\<lambda>i. Fin 0), stores = []\<rparr>" s1] s1
    by (simp add: returned_def)
  moreover have "cells (buf s2) 2147483648 = Fin 1"
    using stores_within_int [of 2 65536 32769 "\<lparr>cells = (\<lambda>i. Fin 1), stores = []\<rparr>" s2] s2
    by (simp add: returned_def)
  ultimately show False by simp
qed

subsection \<open>The imaginary coordinate of a row\<close>

lemma screenHeight_800: "screenHeight = 800"
  by code_simp

lemma row_c_im_800: "row_c_im 800 = MAX_IM"
  by code_simp

lemma row_c_im_399: "fgt (Fin 0) (row_c_im 399)"
  by code_simp

lemma row_c_im_formula:
  "row_c_im y = f32_add MIN_IM (f32_div (f32_mul (i2f y) (Fin 2)) (i2f 800))"
proof -
  have "f32_sub MAX_IM MIN_IM = Fin 2" by code_simp
  then show ?thesis by (simp add: row_c_im_def screenHeight_800)
qed

lemma same_cell_for_any_height:
  assumes "grid_fits_int width height1" and "grid_fits_int width height2"
    and "1 \<le> hc1" and "1 \<le> hc2"
    and "returned hc1 width height1 b1 s1" and "returned hc2 width height2 b2 s2"
    and "0 \<le> y" and "y < height1" and "y < height2" and "0 \<le> x" and "x < width"
  shows "cells (buf s1) (y * width + x) = cells (buf s2) (y * width + x)"
  using returned_cell_done [OF assms(5,3,1,7,8,10,11)]
    returned_cell_done [OF assms(6,4,2,7,9,10,11)]
  by (simp add: cell_done_def)

text \<open>
  C10. \<open>ComputeMandelbrotRow\<close> takes the imaginary coordinate of row \<open>y\<close> from the
  global \<open>screenHeight\<close>, which is 800, and not from the \<open>height\<close> passed to
  \<open>ComputeMandelbrot\<close>: in every state of a pass, whatever its height, a worker inside
  row \<open>y\<close> holds \<open>c_im = MIN_IM + y * 2 / 800\<close>, and its store for column \<open>x\<close>
  writes \<open>pixel_value width y x\<close>, in which no height occurs. So a height other than
  800 does not spread the rows over \<open>[MIN_IM, MAX_IM)\<close>: row 800 of a taller grid is
  already at \<open>MAX_IM\<close>, and the last row, 399, of a grid 400 high is still below 0.
\<close>

theorem row_coordinate_ignores_height:
  assumes "reachable hc width height b s"
    and "t < length (threads s)" and "threads s ! t = InRow y scaleX c_im x"
  shows "c_im = row_c_im y
         \<and> row_c_im y = f32_add MIN_IM (f32_div (f32_mul (i2f y) (Fin 2)) (i2f 800))
         \<and> screenHeight = 800
         \<and> cells (row_pixel (buf s) width y scaleX c_im x) (int32 (int32 (y * width) + x))
             = pixel_value width y x
         \<and> row_c_im 800 = MAX_IM
         \<and> fgt (Fin 0) (row_c_im 399)"
proof -
  from workers_ok_reachable [OF assms(1)] assms(2,3)
  have loc: "scaleX = row_scaleX width" "c_im = row_c_im y"
    unfolding workers_ok_def by blast+
  have "cells (row_pixel (buf s) width y scaleX c_im x) (int32 (int32 (y * width) + x))
      = pixel_value width y x"
    by (simp add: cells_row_pixel pixel_value_def loc)
  with loc(2) show ?thesis
    using row_c_im_formula [of y] screenHeight_800 row_c_im_800 row_c_im_399 by simp
qed

text \<open>
  A state of the pass over a grid of width 1 and height 2 by one worker, after the
  thread has been created and has claimed row 0.
\<close>

theorem row_coordinate_ignores_height_witness:
  "reachable 1 1 2 \<lparr>cells = (\<lambda>i. NaN), stores = []\<rparr>
     \<lparr>nextRow = 1, threads = [InRow 0 (row_scaleX 1) (row_c_im 0) 0],
      buf = \<lparr>cells = (\<lambda>i. NaN), stores = []\<rparr>, caller = Spawning 1, claims = [(0, 0)]\<rparr>
   \<and> row_c_im 0 = MIN_IM
   \<and> cells (row_pixel \<lparr>cells = (\<lambda>i. NaN), stores = []\<rparr> 1 0 (row_scaleX 1) (row_c_im 0) 0) 0
       = Fin 0"
proof -
  let ?b = "\<lparr>cells = (\<lambda>i. NaN), stores = []\<rparr>"
  let ?s1 = "init ?b\<lparr>threads := threads (init ?b) @ [AtClaim], caller := Spawning (0 + 1)\<rparr>"
  let ?s2 = "?s1\<lparr>nextRow := nextRow ?s1 + 1,
      threads := (threads ?s1)[0 := InRow (nextRow ?s1) (row_scaleX 1) (row_c_im (nextRow ?s1)) 0],
      claims := claims ?s1 @ [(0, nextRow ?s1)]\<rparr>"
  have "step 1 1 2 (init ?b) ?s1"
    by (rule step.spawn) (simp_all add: init_def)
  moreover have "step 1 1 2 ?s1 ?s2"
    by (rule step.claim) (simp_all add: init_def)
  ultimately have "(step 1 1 2)\<^sup>*\<^sup>* (init ?b) ?s2"
    by (rule rtranclp.rtrancl_into_rtrancl [OF r_into_rtranclp])
  moreover have "?s2 = \<lparr>nextRow = 1, threads = [InRow 0 (row_scaleX 1) (row_c_im 0) 0],
      buf = ?b, caller = Spawning 1, claims = [(0, 0)]\<rparr>"
    by (simp add: init_def)
  ultimately have r: "reachable 1 1 2 ?b \<lparr>nextRow = 1,
      threads = [InRow 0 (row_scaleX 1) (row_c_im 0) 0],
      buf = ?b, caller = Spawning 1, claims = [(0, 0)]\<rparr>"
    by (simp only: reachable_def)
  have p: "pixel_value 1 0 0 = Fin 0" by code_simp
  have c: "row_c_im 0 = MIN_IM" by code_simp
  have t: "cells (row_pixel ?b 1 0 (row_scaleX 1) (row_c_im 0) 0) (int32 (int32 (0 * 1) + 0))
      = pixel_value 1 0 0"
    using row_coordinate_ignores_height [OF r, of 0 0 "row_scaleX 1" "row_c_im 0" 0,
        THEN conjunct2, THEN conjunct2, THEN conjunct2, THEN conjunct1]
    by simp
  have "int32 (int32 (0 * 1) + 0) = 0" by (simp add: int32_def)
  with t have "cells (row_pixel ?b 1 0 (row_scaleX 1) (row_c_im 0) 0) 0 = Fin 0"
    by (simp only: p)
  with r c show ?thesis by (intro conjI)
qed

section \<open>The colour of an iteration count\<close>

text \<open>
  \<open>sqrtf\<close>: the correctly rounded square root. The argument is a value of the format,
  so its denominator is a power of two; the root is bracketed between two consecutive
  integers at a scale with more bits than the format keeps, and rounded from there.
\<close>

function isqrt :: "int \<Rightarrow> int" where
  "isqrt n = (if n < 2 then n
              else let r = 2 * isqrt (n div 4) in if (r + 1) * (r + 1) \<le> n then r + 1 else r)"
  by pat_completeness auto
termination
  by (relation "measure nat") auto

declare isqrt.simps [simp del]

definition sqrt_round :: "int \<Rightarrow> int \<Rightarrow> rat \<Rightarrow> fval" where
  "sqrt_round p emax a =
     (let (n, d) = quotient_of a;
          j = bitlen d - 1;
          m = (if even j then j else j + 1) div 2;
          N = (if even j then n else 2 * n);
          k = p + 1;
          M = \<lfloor>of_int N * pow2 (2 * k)\<rfloor>;
          s = isqrt M;
          q = (if s * s = M then of_int s else of_int s + 1 / 2) * pow2 (- (m + k))
      in fround p emax q)"

definition fsqrt :: "int \<Rightarrow> int \<Rightarrow> fval \<Rightarrow> fval" where
  "fsqrt p emax x =
     (case x of
        Fin a \<Rightarrow> (if a < 0 then NaN else if a = 0 then Fin 0 else sqrt_round p emax a)
      | PInf \<Rightarrow> PInf
      | NInf \<Rightarrow> NaN
      | NaN \<Rightarrow> NaN)"

abbreviation sqrtf :: "fval \<Rightarrow> fval" where "sqrtf \<equiv> fsqrt 24 127"

text \<open>
  The cast \<open>(unsigned char)\<close> of a \<open>float\<close> truncates towards zero; C++ leaves it
  undefined when the truncated value is not one of 0 to 255, which is \<open>None\<close> here.
\<close>

definition to_uchar :: "fval \<Rightarrow> nat option" where
  "to_uchar x = (case x of Fin a \<Rightarrow> (if - 1 < a \<and> a < 256 then Some (nat \<lfloor>a\<rfloor>) else None)
                 | _ \<Rightarrow> None)"

text \<open>
  raylib's \<open>Color\<close>, four \<open>unsigned char\<close> named \<open>r\<close>, \<open>g\<close>, \<open>b\<close> and
  \<open>a\<close>, and its \<open>BLACK\<close>, \<open>{0, 0, 0, 255}\<close>.
\<close>

record Color =
  color_r :: nat
  color_g :: nat
  color_b :: nat
  color_a :: nat

definition BLACK :: Color where
  "BLACK = \<lparr>color_r = 0, color_g = 0, color_b = 0, color_a = 255\<rparr>"

text \<open>
  Lines 93 to 106. The \<open>int\<close> operands are converted to \<open>float\<close> and every product is
  taken in \<open>float\<close>, from left to right.
\<close>

definition GetColorFromIterations :: "fval \<Rightarrow> int \<Rightarrow> Color option" where
  "GetColorFromIterations iterations maxIterations =
     (if feq iterations (i2f maxIterations) then Some BLACK
      else
        let t = f32_div iterations (i2f maxIterations);
            t = sqrtf t;
            one_t = f32_sub (i2f 1) t;
            rf = f32_mul (f32_mul (f32_mul (f32_mul (i2f 9) one_t) t) t) (i2f 255);
            gf = f32_mul (f32_mul (f32_mul (f32_mul (i2f 15) one_t) one_t) t) (i2f 255);
            bf = f32_mul (f32_mul (f32_mul (f32_mul (f32_mul (i2f 12) one_t) one_t) one_t) t)
                   (i2f 255)
        in case (to_uchar rf, to_uchar gf, to_uchar bf) of
             (Some r, Some g, Some b) \<Rightarrow> Some \<lparr>color_r = r, color_g = g, color_b = b, color_a = 255\<rparr>
           | _ \<Rightarrow> None)"

lemma sqrtf_two: "sqrtf (Fin 2) = Fin (11863283 / 8388608)"
  by code_simp

lemma fround_not_NaN: "fround p emax q \<noteq> NaN"
  by (simp add: fround_def Let_def)

lemma colour_of_zero: "GetColorFromIterations (i2f 0) 100000 = Some BLACK"
  by code_simp

lemma colour_of_99999: "GetColorFromIterations (i2f 99999) 100000 = Some BLACK"
  by code_simp

lemma colour_of_one:
  "GetColorFromIterations (i2f 1) 100000
     = Some \<lparr>color_r = 0, color_g = 12, color_b = 9, color_a = 255\<rparr>"
  by code_simp

text \<open>
  C9, as the program has it. \<open>GetColorFromIterations\<close> returns black whenever the
  count equals \<open>maxIterations\<close>. The converse does not hold: the gradient is 0 in all
  three channels at both ends, so for \<open>maxIterations = 100000\<close> the counts 0 and 99999
  are black as well.
\<close>

theorem black_at_max_iterations:
  "GetColorFromIterations (i2f maxIterations) maxIterations = Some BLACK
   \<and> GetColorFromIterations (i2f 0) MAX_ITERATIONS = Some BLACK
   \<and> GetColorFromIterations (i2f 99999) MAX_ITERATIONS = Some BLACK"
  using colour_of_zero colour_of_99999
  by (simp add: GetColorFromIterations_def feq_def of_int_f_def fround_not_NaN MAX_ITERATIONS_def)

text \<open>
  The claim that a count maps to black exactly when it equals \<open>maxIterations\<close> fails at
  the count 0: \<open>t\<close> is 0, each channel is a product with the factor \<open>t\<close>, and the
  colour is \<open>{0, 0, 0, 255}\<close>.
\<close>

theorem black_below_max_iterations_counterexample:
  "\<not> (GetColorFromIterations (i2f 0) MAX_ITERATIONS = Some BLACK \<longleftrightarrow> (0::int) = MAX_ITERATIONS)"
  using colour_of_zero by (simp add: MAX_ITERATIONS_def)

end
